theory Spec2Isabelle
  imports Complex_Main "HOL-Library.Word"
begin

unbundle bit_operations_syntax

section \<open>Symmetry specs (symmetry.cpp)\<close>

type_synonym u16 = "16 word"
type_synonym u32 = "32 word"
type_synonym u64 = "64 word"

text \<open>The error codes of the C interface that the two source files use.\<close>

datatype ls_error_code =
    LS_SUCCESS
  | LS_INVALID_NUMBER_SPINS
  | LS_INCOMPATIBLE_SYMMETRIES
  | LS_SYSTEM_ERROR

text \<open>
  How a call can end without a value: with an error code (\<open>outcome::failure\<close>), by a failed
  \<open>LATTICE_SYMMETRIES_CHECK\<close> or \<open>LATTICE_SYMMETRIES_ASSERT\<close> (the spec calls these fatal
  internal-consistency failures), or in C++ undefined behaviour (an index out of range, an
  integer division by zero).
\<close>

datatype failure = Failure ls_error_code | Fatal | Undefined

record symmetry_spec_t =
  permutation :: "u16 list"
  sector :: u16
  periodicity :: u16

subsection \<open>rational\_add\<close>

text \<open>
  \<open>std::gcd\<close> on two \<open>unsigned\<close> values. The sum and the products of \<open>rational_add\<close> are
  \<open>unsigned\<close> (32 bits) and wrap. \<open>p /= m\<close>, \<open>q /= m\<close> and \<open>p % q\<close> divide by zero when
  \<open>q\<close> is zero: that is \<open>None\<close> here.
\<close>

definition gcd_u32 :: "u32 \<Rightarrow> u32 \<Rightarrow> u32" where
  "gcd_u32 p q = of_nat (gcd (unat p) (unat q))"

definition rational_add :: "u32 \<times> u32 \<Rightarrow> u32 \<times> u32 \<Rightarrow> (u32 \<times> u32) option" where
  "rational_add a b =
     (let p = fst a * snd b + fst b * snd a;
          q = snd a * snd b;
          m = gcd_u32 p q
      in if m = 0 then None
         else let p' = p div m; q' = q div m
              in if q' = 0 then None else Some (p' mod q', q'))"

subsection \<open>equal\<close>

definition equal :: "symmetry_spec_t \<Rightarrow> symmetry_spec_t \<Rightarrow> failure + bool" where
  "equal x y =
     (if length (permutation x) \<noteq> length (permutation y)
        then Inl (Failure LS_INCOMPATIBLE_SYMMETRIES)
      else if periodicity x \<noteq> periodicity y then Inr False
      else if permutation x = permutation y
        then (if sector x \<noteq> sector y then Inl (Failure LS_INCOMPATIBLE_SYMMETRIES)
              else Inr True)
      else Inr False)"

subsection \<open>compute\_periodicity\<close>

text \<open>
  Modelled from the spec: \<open>compute_periodicity\<close> is declared outside the two source files.
  The spec gives it as an external collaborator that computes the order of a permutation,
  "the smallest positive integer \<open>k\<close> with \<open>permutation^k = identity\<close>". Here the order is
  computed as the least common multiple of the cycle lengths; \<open>cycle_length p i\<close> is the
  first \<open>k\<close> in \<open>1..length p\<close> with \<open>p^k(i) = i\<close> (0 when there is none, which cannot
  happen for a permutation). Lemma \<open>compute_periodicity_dvd\<close> below shows that for a
  permutation this is the spec's smallest positive \<open>k\<close>.
\<close>

definition apply_perm :: "u16 list \<Rightarrow> nat \<Rightarrow> nat" where
  "apply_perm p i = unat (p ! i)"

definition is_permutation :: "u16 list \<Rightarrow> bool" where
  "is_permutation p \<longleftrightarrow> distinct p \<and> list_all (\<lambda>x. unat x < length p) p"

definition cycle_length :: "u16 list \<Rightarrow> nat \<Rightarrow> nat" where
  "cycle_length p i =
     (case find (\<lambda>k. (apply_perm p ^^ k) i = i) [1..<Suc (length p)] of
        Some k \<Rightarrow> k
      | None \<Rightarrow> 0)"

definition compute_periodicity :: "u16 list \<Rightarrow> nat" where
  "compute_periodicity p = fold lcm (map (cycle_length p) [0..<length p]) 1"

text \<open>The spec's words: \<open>k\<close> is the smallest positive integer with \<open>p^k = identity\<close>.\<close>

definition power_is_identity :: "u16 list \<Rightarrow> nat \<Rightarrow> bool" where
  "power_is_identity p k \<longleftrightarrow> (\<forall>i<length p. (apply_perm p ^^ k) i = i)"

definition is_order :: "u16 list \<Rightarrow> nat \<Rightarrow> bool" where
  "is_order p k \<longleftrightarrow>
     0 < k \<and> power_is_identity p k \<and> (\<forall>j. 0 < j \<and> j < k \<longrightarrow> \<not> power_is_identity p j)"

subsection \<open>compose\<close>

text \<open>
  \<open>std::iota\<close> fills a \<open>uint16_t\<close> vector, \<open>temp[i] = y.permutation[iota[i]]\<close>, and
  \<open>permutation[i] = x.permutation[temp[i]]\<close>. The second read is out of range when an entry
  of \<open>y.permutation\<close> is not below the length: undefined behaviour in C++, \<open>Undefined\<close> here.
  The result of \<open>compute_periodicity\<close> is bound with \<open>auto\<close>, compared with the \<open>unsigned\<close>
  denominator and narrowed by \<open>static_cast<uint16_t>\<close>: it is taken as \<open>unsigned\<close> (32 bits).
\<close>

definition compose_permutation :: "u16 list \<Rightarrow> u16 list \<Rightarrow> u16 list option" where
  "compose_permutation xp yp =
     (let iota = map of_nat [0..<length xp] :: u16 list;
          temp = map (\<lambda>i. yp ! unat i) iota
      in if list_all (\<lambda>t. unat t < length xp) temp
         then Some (map (\<lambda>t. xp ! unat t) temp)
         else None)"

definition compose :: "symmetry_spec_t \<Rightarrow> symmetry_spec_t \<Rightarrow> failure + symmetry_spec_t" where
  "compose x y =
     (if length (permutation x) \<noteq> length (permutation y)
        then Inl (Failure LS_INCOMPATIBLE_SYMMETRIES)
      else case compose_permutation (permutation x) (permutation y) of
        None \<Rightarrow> Inl Undefined
      | Some perm \<Rightarrow>
          (let P = (of_nat (compute_periodicity perm) :: u32)
           in case rational_add (ucast (sector x), ucast (periodicity x))
                                (ucast (sector y), ucast (periodicity y)) of
                None \<Rightarrow> Inl Undefined
              | Some phase \<Rightarrow>
                  if snd phase > P then Inl (Failure LS_INCOMPATIBLE_SYMMETRIES)
                  else if P mod snd phase \<noteq> 0 then Inl (Failure LS_INCOMPATIBLE_SYMMETRIES)
                  else Inr \<lparr>permutation = perm,
                            sector = ucast (fst phase * (P div snd phase)),
                            periodicity = ucast P\<rparr>))"

subsection \<open>make\_group\<close>

text \<open>
  The \<open>contains\<close> lambda: the first error of \<open>equal\<close> is returned (\<open>OUTCOME_TRYX\<close>), the
  first \<open>true\<close> ends the scan.
\<close>

fun contains :: "symmetry_spec_t list \<Rightarrow> symmetry_spec_t \<Rightarrow> failure + bool" where
  "contains [] x = Inr False"
| "contains (g # gs) x =
     (case equal g x of
        Inl e \<Rightarrow> Inl e
      | Inr r \<Rightarrow> if r then Inr True else contains gs x)"

text \<open>The first loop: each generator is appended unless the group already contains it.\<close>

fun add_generators ::
  "symmetry_spec_t list \<Rightarrow> symmetry_spec_t list \<Rightarrow> failure + symmetry_spec_t list" where
  "add_generators grp [] = Inr grp"
| "add_generators grp (g # gs) =
     (case contains grp g of
        Inl e \<Rightarrow> Inl e
      | Inr c \<Rightarrow> add_generators (if c then grp else grp @ [g]) gs)"

text \<open>
  The body of the two nested loops for one pair: \<open>contains(extra, g)\<close> is only evaluated
  when \<open>contains(group, g)\<close> is false (\<open>&&\<close> short-circuits).
\<close>

definition compose_pair ::
  "symmetry_spec_t list \<Rightarrow> symmetry_spec_t list \<Rightarrow> symmetry_spec_t \<Rightarrow> symmetry_spec_t
     \<Rightarrow> failure + symmetry_spec_t list" where
  "compose_pair grp extra g1 g2 =
     (case compose g1 g2 of
        Inl e \<Rightarrow> Inl e
      | Inr g \<Rightarrow>
          (case contains grp g of
             Inl e \<Rightarrow> Inl e
           | Inr c \<Rightarrow>
               if c then Inr extra
               else (case contains extra g of
                       Inl e \<Rightarrow> Inl e
                     | Inr c' \<Rightarrow> if c' then Inr extra else Inr (extra @ [g]))))"

fun compose_row ::
  "symmetry_spec_t list \<Rightarrow> symmetry_spec_t \<Rightarrow> symmetry_spec_t list \<Rightarrow> symmetry_spec_t list
     \<Rightarrow> failure + symmetry_spec_t list" where
  "compose_row grp g1 extra [] = Inr extra"
| "compose_row grp g1 extra (g2 # rest) =
     (case compose_pair grp extra g1 g2 of
        Inl e \<Rightarrow> Inl e
      | Inr extra' \<Rightarrow> compose_row grp g1 extra' rest)"

fun compose_all ::
  "symmetry_spec_t list \<Rightarrow> symmetry_spec_t list \<Rightarrow> symmetry_spec_t list
     \<Rightarrow> failure + symmetry_spec_t list" where
  "compose_all grp extra [] = Inr extra"
| "compose_all grp extra (g1 # rest) =
     (case compose_row grp g1 extra grp of
        Inl e \<Rightarrow> Inl e
      | Inr extra' \<Rightarrow> compose_all grp extra' rest)"

text \<open>
  The \<open>for (;;)\<close> loop. Nothing in the source bounds the number of rounds, so the loop is a
  partial function: \<open>None\<close> is a run that never leaves the loop.
\<close>

partial_function (option) close_group ::
  "symmetry_spec_t list \<Rightarrow> (failure + symmetry_spec_t list) option" where
  "close_group grp =
     (case compose_all grp [] grp of
        Inl e \<Rightarrow> Some (Inl e)
      | Inr extra \<Rightarrow> if extra = [] then Some (Inr grp) else close_group (grp @ extra))"

declare close_group.simps [code]

definition make_group :: "symmetry_spec_t list \<Rightarrow> (failure + symmetry_spec_t list) option" where
  "make_group generators =
     (if generators = [] then Some (Inr [])
      else case add_generators [] generators of
             Inl e \<Rightarrow> Some (Inl e)
           | Inr grp \<Rightarrow> close_group grp)"

section \<open>The group handle (symmetry.cpp, C interface)\<close>

text \<open>
  \<open>std::complex<double>\<close> is \<open>complex\<close> and \<open>double\<close> is \<open>real\<close> throughout: arithmetic is
  exact, rounding is not modelled.

  An \<open>ls_symmetry\<close> is built by \<open>from_spec\<close> with the compiled network, the sector, the
  periodicity and the eigenvalue, in this order; \<open>wide\<close> tells which alternative of the
  payload variant it holds (\<open>big_symmetry_t\<close> for more than 64 sites).

  Modelled from the spec: \<open>compile\<close>, \<open>compute_eigenvalue\<close>, \<open>ls_symmetry_get_number_spins\<close>
  and \<open>ls_get_eigenvalue\<close> are declared outside the two source files. The spec gives the
  permutation network compiler as "takes a permutation of \<open>N \<le> 512\<close> elements, returns an
  object that can apply the permutation to a bit pattern of matching width", so a compiled
  network is represented by its permutation, and compiling anything else fails; the
  eigenvalue is "\<open>exp(2\<pi>i\<cdot>sector/periodicity)\<close>"; the number of spins of a symmetry is the
  width of its network; \<open>ls_get_eigenvalue\<close> reads the stored eigenvalue.
\<close>

type_synonym fat_benes_network_t = "u16 list"

record ls_symmetry =
  wide :: bool
  network :: fat_benes_network_t
  sym_sector :: u16
  sym_periodicity :: u16
  sym_eigenvalue :: complex

definition compile :: "u16 list \<Rightarrow> fat_benes_network_t option" where
  "compile p = (if is_permutation p \<and> length p \<le> 512 then Some p else None)"

definition compute_eigenvalue :: "u16 \<Rightarrow> u16 \<Rightarrow> complex" where
  "compute_eigenvalue s p = cis (2 * pi * real (unat s) / real (unat p))"

definition ls_symmetry_get_number_spins :: "ls_symmetry \<Rightarrow> u32" where
  "ls_symmetry_get_number_spins s = of_nat (length (network s))"

definition ls_get_eigenvalue :: "ls_symmetry \<Rightarrow> complex" where
  "ls_get_eigenvalue s = sym_eigenvalue s"

text \<open>\<open>from_spec\<close>: a failed compilation is a failed \<open>LATTICE_SYMMETRIES_CHECK\<close>.\<close>

definition from_spec :: "symmetry_spec_t \<Rightarrow> failure + ls_symmetry" where
  "from_spec spec =
     (case compile (permutation spec) of
        None \<Rightarrow> Inl Fatal
      | Some fat \<Rightarrow>
          Inr \<lparr>wide = (64 < length (permutation spec)),
               network = fat,
               sym_sector = sector spec,
               sym_periodicity = periodicity spec,
               sym_eigenvalue = compute_eigenvalue (sector spec) (periodicity spec)\<rparr>)"

text \<open>
  \<open>make_identity_spec\<close>: the loop counter is a \<open>uint16_t\<close> that runs up to
  \<open>static_cast<uint16_t>(number_spins)\<close>.
\<close>

definition make_identity_spec :: "u32 \<Rightarrow> symmetry_spec_t" where
  "make_identity_spec number_spins =
     \<lparr>permutation = map of_nat [0..<unat (ucast number_spins :: u16)],
      sector = 0, periodicity = 1\<rparr>"

text \<open>An \<open>ls_group\<close> is its payload. A constructor returns an error code or stores the group.\<close>

type_synonym ls_group = "ls_symmetry list"

definition ls_create_trivial_group :: "u32 \<Rightarrow> failure + ls_group" where
  "ls_create_trivial_group number_spins =
     (if number_spins = 0 then Inl (Failure LS_INVALID_NUMBER_SPINS)
      else case from_spec (make_identity_spec number_spins) of
             Inl e \<Rightarrow> Inl e
           | Inr s \<Rightarrow> Inr [s])"

definition ls_get_group_size :: "ls_group \<Rightarrow> u32" where
  "ls_get_group_size grp = of_nat (length grp)"

definition ls_group_get_number_spins :: "ls_group \<Rightarrow> int" where
  "ls_group_get_number_spins grp =
     (if ls_get_group_size grp = 0 then - 1
      else sint (ls_symmetry_get_number_spins (hd grp)))"

text \<open>
  \<open>ls_symmetry_get_network_depth\<close>, \<open>ls_symmetry_get_network_shifts\<close> and
  \<open>ls_symmetry_get_network_masks\<close> are declared outside the two source files and the spec
  does not say what they compute: they are the parameters \<open>depth_of\<close>, \<open>write_shifts\<close> and
  \<open>write_masks\<close>. The buffers of masks and of shifts are values of any type; \<open>write_masks\<close>
  gets the byte offset that the \<open>masks\<close> pointer has reached and the stride. The array of
  eigenvalues is a function of the index.
\<close>

definition ls_group_get_network_depth :: "(ls_symmetry \<Rightarrow> u32) \<Rightarrow> ls_group \<Rightarrow> failure + int" where
  "ls_group_get_network_depth depth_of grp =
     (if ls_get_group_size grp = 0 then Inr (- 1)
      else let depth = depth_of (hd grp)
           in if list_all (\<lambda>s. depth_of s = depth) (tl grp) then Inr (sint depth)
              else Inl Fatal)"

fun dump_loop ::
  "(ls_symmetry \<Rightarrow> nat \<Rightarrow> u32 \<Rightarrow> 'm \<Rightarrow> 'm) \<Rightarrow> u32 \<Rightarrow> ls_symmetry list
     \<Rightarrow> nat \<Rightarrow> 'm \<Rightarrow> nat \<Rightarrow> (nat \<Rightarrow> complex) \<Rightarrow> 'm \<times> (nat \<Rightarrow> complex)" where
  "dump_loop write_masks n [] offset masks i eigenvalues = (masks, eigenvalues)"
| "dump_loop write_masks n (symmetry # rest) offset masks i eigenvalues =
     dump_loop write_masks n rest
       (offset + (if ls_symmetry_get_number_spins symmetry > 64 then 64 else 8))
       (write_masks symmetry offset n masks)
       (Suc i) (eigenvalues(i := ls_get_eigenvalue symmetry))"

definition ls_group_dump_symmetry_info ::
  "(ls_symmetry \<Rightarrow> u32) \<Rightarrow> (ls_symmetry \<Rightarrow> 's \<Rightarrow> 's) \<Rightarrow> (ls_symmetry \<Rightarrow> nat \<Rightarrow> u32 \<Rightarrow> 'm \<Rightarrow> 'm)
     \<Rightarrow> ls_group \<Rightarrow> 'm \<Rightarrow> 's \<Rightarrow> (nat \<Rightarrow> complex)
     \<Rightarrow> failure + ls_error_code \<times> 'm \<times> 's \<times> (nat \<Rightarrow> complex)" where
  "ls_group_dump_symmetry_info depth_of write_shifts write_masks grp masks shifts eigenvalues =
     (let n = ls_get_group_size grp
      in case ls_group_get_network_depth depth_of grp of
           Inl e \<Rightarrow> Inl e
         | Inr depth \<Rightarrow>
             if depth = - 1 then Inr (LS_SYSTEM_ERROR, masks, shifts, eigenvalues)
             else if \<not> depth \<ge> 0 then Inl Fatal
             else let shifts' = write_shifts (hd grp) shifts;
                      (masks', eigenvalues') = dump_loop write_masks n grp 0 masks 0 eigenvalues
                  in Inr (LS_SUCCESS, masks', shifts', eigenvalues'))"

section \<open>Representatives (state\_info.cpp)\<close>

text \<open>
  \<open>double\<close> is \<open>real\<close>: sums, products, quotients and square roots are exact. The one
  division of the code whose divisor can be zero, that of the norm by the group size, has its
  own result type below.
  A \<open>vcl::Vec8uq\<close> or \<open>vcl::Vec8d\<close> is a function of the lane, of which lanes 0 to 7 are
  used; the operations of the vector class library are lane-wise.
\<close>

type_synonym double = real
type_synonym 'a vec8 = "nat \<Rightarrow> 'a"
type_synonym bits512 = "512 word"

text \<open>
  Modelled from the spec: the basis header and the two basis bodies are declared outside the
  source files, as are \<open>batch_size\<close>, the batched and the single networks and the
  comparison of \<open>bits512\<close>. The spec gives the header as \<open>{number_spins, has_symmetries,
  spin_inversion: -1|0|1}\<close>; the small body as the compiled group "split into batches of 8
  compiled symmetries (\<open>batched_symmetries\<close>) plus an optional remainder batch
  (\<open>other_symmetries\<close>, with \<open>number_other_symmetries < 8\<close> valid lanes)"; the big body as "a
  flat sequence of compiled symmetries". A network is the function on bit patterns that it
  applies, one function per lane in a batch (\<open>benes_forward\<close>: "apply each lane's network in
  parallel"). \<open>bits512\<close> is compared "by unsigned numeric value over the full width", with
  \<open>words[0]\<close> the lowest 64 bits.
\<close>

record basis_base_t =
  number_spins :: nat
  has_symmetries :: bool
  spin_inversion :: int

record batched_small_symmetry_t =
  batch_network :: "(u64 \<Rightarrow> u64) vec8"
  eigenvalues_real :: "double vec8"
  eigenvalues_imag :: "double vec8"

record small_basis_t =
  batched_symmetries :: "batched_small_symmetry_t list"
  other_symmetries :: "batched_small_symmetry_t option"
  number_other_symmetries :: nat

record 'b big_symmetry_t =
  big_network :: "'b \<Rightarrow> 'b"
  eigenvalue :: complex

record 'b big_basis_t =
  symmetries :: "'b big_symmetry_t list"

definition batch_size :: nat where
  "batch_size = 8"

definition benes_forward :: "(u64 \<Rightarrow> u64) vec8 \<Rightarrow> u64 vec8 \<Rightarrow> u64 vec8" where
  "benes_forward net x = (\<lambda>i. net i (x i))"

definition bits512_of_words :: "u64 list \<Rightarrow> bits512" where
  "bits512_of_words ws = foldr (\<lambda>w acc. push_bit 64 acc OR ucast w) ws 0"

subsection \<open>Flip masks\<close>

text \<open>
  \<open>(~uint64_t{0}) >> (64U - n)\<close>: for \<open>n > 64\<close> the \<open>unsigned\<close> difference wraps and the shift
  count is not below 64, which is undefined. \<open>get_flip_mask_512\<close> writes \<open>n div 64\<close> full
  words, one partial word when \<open>n mod 64 \<noteq> 0\<close>, and zeros up to 8 words; for \<open>n > 512\<close> it
  writes past the 8 words.
\<close>

definition get_flip_mask_64 :: "nat \<Rightarrow> u64 option" where
  "get_flip_mask_64 n =
     (if n = 0 then Some 0
      else if n \<le> 64 then Some (drop_bit (64 - n) (NOT 0))
      else None)"

definition get_flip_mask_512 :: "nat \<Rightarrow> bits512 option" where
  "get_flip_mask_512 n =
     (let full = replicate (n div 64) (NOT 0 :: u64);
          part = (case get_flip_mask_64 (n mod 64) of
                    Some m \<Rightarrow> if n mod 64 \<noteq> 0 then [m] else []
                  | None \<Rightarrow> []);
          ws = full @ part
      in if length ws > 8 then None
         else Some (bits512_of_words (ws @ replicate (8 - length ws) 0)))"

subsection \<open>The batch accumulator\<close>

record batch_acc_64 =
  acc_original :: "u64 vec8"
  acc_r :: "u64 vec8"
  acc_n :: "double vec8"
  acc_e_re :: "double vec8"
  acc_e_im :: "double vec8"

definition select :: "bool vec8 \<Rightarrow> 'a vec8 \<Rightarrow> 'a vec8 \<Rightarrow> 'a vec8" where
  "select m a b = (\<lambda>i. if m i then a i else b i)"

definition if_add :: "bool vec8 \<Rightarrow> double vec8 \<Rightarrow> double vec8 \<Rightarrow> double vec8" where
  "if_add m a b = (\<lambda>i. if m i then a i + b i else a i)"

definition horizontal_or :: "bool vec8 \<Rightarrow> bool" where
  "horizontal_or m \<longleftrightarrow> list_ex m [0..<8]"

definition horizontal_add :: "double vec8 \<Rightarrow> double" where
  "horizontal_add v = sum_list (map v [0..<8])"

definition batch_acc :: "u64 \<Rightarrow> batch_acc_64" where
  "batch_acc bits =
     \<lparr>acc_original = (\<lambda>i. bits), acc_r = (\<lambda>i. bits), acc_n = (\<lambda>i. 0),
      acc_e_re = (\<lambda>i. 1), acc_e_im = (\<lambda>i. 0)\<rparr>"

definition update ::
  "batch_acc_64 \<Rightarrow> u64 vec8 \<Rightarrow> double vec8 \<Rightarrow> double vec8 \<Rightarrow> batch_acc_64" where
  "update acc x re im =
     (let smaller = (\<lambda>i. x i < acc_r acc i)
      in acc\<lparr>acc_r := select smaller x (acc_r acc),
             acc_e_re := select smaller re (acc_e_re acc),
             acc_e_im := select smaller im (acc_e_im acc),
             acc_n := if_add (\<lambda>i. x i = acc_original acc i) (acc_n acc) re\<rparr>)"

text \<open>\<open>update_first_few\<close> starts with \<open>LATTICE_SYMMETRIES_ASSERT(count < 8, "")\<close>.\<close>

definition update_first_few ::
  "batch_acc_64 \<Rightarrow> u64 vec8 \<Rightarrow> double vec8 \<Rightarrow> double vec8 \<Rightarrow> nat \<Rightarrow> failure + batch_acc_64" where
  "update_first_few acc x re im count =
     (if \<not> count < 8 then Inl Fatal
      else let include = (\<lambda>i. i < count);
               smaller = (\<lambda>i. x i < acc_r acc i \<and> include i)
           in Inr (acc\<lparr>acc_r := select smaller x (acc_r acc),
                       acc_e_re := select smaller re (acc_e_re acc),
                       acc_e_im := select smaller im (acc_e_im acc),
                       acc_n := if_add (\<lambda>i. x i = acc_original acc i \<and> include i)
                                  (acc_n acc) re\<rparr>))"

text \<open>The norm-only updates return \<open>None\<close> for \<open>false\<close> and the new accumulator for \<open>true\<close>.\<close>

definition update_norm_only :: "batch_acc_64 \<Rightarrow> u64 vec8 \<Rightarrow> double vec8 \<Rightarrow> batch_acc_64 option" where
  "update_norm_only acc x re =
     (let smaller = (\<lambda>i. x i < acc_r acc i)
      in if horizontal_or smaller then None
         else Some (acc\<lparr>acc_n := if_add (\<lambda>i. x i = acc_original acc i) (acc_n acc) re\<rparr>))"

definition update_first_few_norm_only ::
  "batch_acc_64 \<Rightarrow> u64 vec8 \<Rightarrow> double vec8 \<Rightarrow> nat \<Rightarrow> batch_acc_64 option" where
  "update_first_few_norm_only acc x re count =
     (let include = (\<lambda>i. i < count);
          smaller = (\<lambda>i. x i < acc_r acc i \<and> include i)
      in if horizontal_or smaller then None
         else Some (acc\<lparr>acc_n := if_add (\<lambda>i. x i = acc_original acc i \<and> include i)
                                     (acc_n acc) re\<rparr>))"

definition reduce_norm_only :: "batch_acc_64 \<Rightarrow> double" where
  "reduce_norm_only acc = horizontal_add (acc_n acc)"

text \<open>
  \<open>reduce\<close>: \<open>get_low\<close> is lanes 0 to 3 (then 0 to 1) and \<open>get_high\<close> lanes 4 to 7 (then 2 to
  3); each level keeps the low half where it is strictly smaller and the high half otherwise.
\<close>

definition reduce :: "batch_acc_64 \<Rightarrow> u64 \<times> complex \<times> double" where
  "reduce acc =
     (let nrm = reduce_norm_only acc;
          smaller256 = (\<lambda>i. acc_r acc i < acc_r acc (i + 4));
          r256 = select smaller256 (acc_r acc) (\<lambda>i. acc_r acc (i + 4));
          e_re256 = select smaller256 (acc_e_re acc) (\<lambda>i. acc_e_re acc (i + 4));
          e_im256 = select smaller256 (acc_e_im acc) (\<lambda>i. acc_e_im acc (i + 4));
          smaller128 = (\<lambda>i. r256 i < r256 (i + 2));
          r128 = select smaller128 r256 (\<lambda>i. r256 (i + 2));
          e_re128 = select smaller128 e_re256 (\<lambda>i. e_re256 (i + 2));
          e_im128 = select smaller128 e_im256 (\<lambda>i. e_im256 (i + 2))
      in if r128 0 < r128 1 then (r128 0, Complex (e_re128 0) (e_im128 0), nrm)
         else (r128 1, Complex (e_re128 1) (e_im128 1), nrm))"

subsection \<open>The end of both paths\<close>

text \<open>
  \<open>constexpr auto norm_threshold = 1.0e-5\<close> is the double nearest to \<open>1/100000\<close>, which is
  \<open>5902958103587057 / 2 ^ 69\<close>, a little above \<open>1/100000\<close>.
\<close>

definition norm_threshold :: double where
  "norm_threshold = 5902958103587057 / 590295810358705651712"

text \<open>
  A sum within the threshold of zero becomes zero; \<open>LATTICE_SYMMETRIES_ASSERT(n >= 0.0, "")\<close>;
  the norm is \<open>sqrt(n / group_size)\<close>, a division of doubles: for a group size of zero it is
  \<open>sqrt(0.0 / 0.0)\<close>, not a number, or the square root of a positive sum over \<open>0.0\<close>, infinity.
\<close>

datatype norm_value = Finite double | PlusInfinity | NotANumber

definition snap :: "double \<Rightarrow> double" where
  "snap n = (if \<bar>n\<bar> \<le> norm_threshold then 0 else n)"

definition finish_norm :: "double \<Rightarrow> nat \<Rightarrow> failure + norm_value" where
  "finish_norm n group_size =
     (let n = snap n
      in if \<not> n \<ge> 0 then Inl Fatal
         else if group_size = 0 then Inr (if n = 0 then NotANumber else PlusInfinity)
         else Inr (Finite (sqrt (n / real group_size))))"

subsection \<open>get\_state\_info and is\_representative on 64 bits\<close>

definition batch_step ::
  "basis_base_t \<Rightarrow> u64 vec8 \<Rightarrow> double vec8 \<Rightarrow> batch_acc_64 \<Rightarrow> batched_small_symmetry_t
     \<Rightarrow> batch_acc_64" where
  "batch_step h flip_mask flip_coeff acc symmetry =
     (let x = benes_forward (batch_network symmetry) (acc_original acc);
          re = eigenvalues_real symmetry;
          im = eigenvalues_imag symmetry;
          acc = update acc x re im
      in if spin_inversion h \<noteq> 0
         then let x = (\<lambda>i. x i XOR flip_mask i);
                  re = (if spin_inversion h \<noteq> 1 then (\<lambda>i. re i * flip_coeff i) else re);
                  im = (if spin_inversion h \<noteq> 1 then (\<lambda>i. im i * flip_coeff i) else im)
              in update acc x re im
         else acc)"

definition other_step ::
  "basis_base_t \<Rightarrow> u64 vec8 \<Rightarrow> double vec8 \<Rightarrow> nat \<Rightarrow> batch_acc_64 \<Rightarrow> batched_small_symmetry_t
     \<Rightarrow> failure + batch_acc_64" where
  "other_step h flip_mask flip_coeff count acc symmetry =
     (let x = benes_forward (batch_network symmetry) (acc_original acc);
          re = eigenvalues_real symmetry;
          im = eigenvalues_imag symmetry
      in case update_first_few acc x re im count of
           Inl e \<Rightarrow> Inl e
         | Inr acc \<Rightarrow>
             if spin_inversion h \<noteq> 0
             then let x = (\<lambda>i. x i XOR flip_mask i);
                      re = (if spin_inversion h \<noteq> 1 then (\<lambda>i. re i * flip_coeff i)
                              else re);
                      im = (if spin_inversion h \<noteq> 1 then (\<lambda>i. im i * flip_coeff i)
                              else im)
                  in update_first_few acc x re im count
             else Inr acc)"

definition small_group_size :: "basis_base_t \<Rightarrow> small_basis_t \<Rightarrow> nat" where
  "small_group_size h body =
     ((if spin_inversion h \<noteq> 0 then 1 else 0) + 1)
       * (batch_size * length (batched_symmetries body) + number_other_symmetries body)"

definition get_state_info ::
  "basis_base_t \<Rightarrow> small_basis_t \<Rightarrow> u64 \<Rightarrow> failure + u64 \<times> complex \<times> norm_value" where
  "get_state_info h body bits =
     (if \<not> has_symmetries h then Inr (bits, Complex 1 0, Finite 1)
      else case get_flip_mask_64 (number_spins h) of
        None \<Rightarrow> Inl Undefined
      | Some m \<Rightarrow>
          (let flip_mask = (\<lambda>i. m);
               flip_coeff = (\<lambda>i. real_of_int (spin_inversion h));
               acc = fold (\<lambda>symmetry acc. batch_step h flip_mask flip_coeff acc symmetry)
                       (batched_symmetries body) (batch_acc bits)
           in case (case other_symmetries body of
                      None \<Rightarrow> Inr acc
                    | Some symmetry \<Rightarrow>
                        other_step h flip_mask flip_coeff (number_other_symmetries body)
                          acc symmetry) of
                Inl e \<Rightarrow> Inl e
              | Inr acc \<Rightarrow>
                  (case reduce acc of
                     (representative, character, n) \<Rightarrow>
                       (case finish_norm n (small_group_size h body) of
                          Inl e \<Rightarrow> Inl e
                        | Inr nrm \<Rightarrow> Inr (representative, character, nrm)))))"

text \<open>
  \<open>is_representative\<close>: each \<open>return false\<close> inside the loops is \<open>None\<close> of the step, and
  the flipped eigenvalues are always multiplied by the coefficient.
\<close>

definition batch_step_norm_only ::
  "basis_base_t \<Rightarrow> u64 vec8 \<Rightarrow> double vec8 \<Rightarrow> batch_acc_64 \<Rightarrow> batched_small_symmetry_t
     \<Rightarrow> batch_acc_64 option" where
  "batch_step_norm_only h flip_mask flip_coeff acc symmetry =
     (let x = benes_forward (batch_network symmetry) (acc_original acc);
          re = eigenvalues_real symmetry
      in case update_norm_only acc x re of
           None \<Rightarrow> None
         | Some acc \<Rightarrow>
             if spin_inversion h \<noteq> 0
             then update_norm_only acc (\<lambda>i. x i XOR flip_mask i) (\<lambda>i. re i * flip_coeff i)
             else Some acc)"

fun batches_norm_only ::
  "basis_base_t \<Rightarrow> u64 vec8 \<Rightarrow> double vec8 \<Rightarrow> batch_acc_64 \<Rightarrow> batched_small_symmetry_t list
     \<Rightarrow> batch_acc_64 option" where
  "batches_norm_only h flip_mask flip_coeff acc [] = Some acc"
| "batches_norm_only h flip_mask flip_coeff acc (symmetry # rest) =
     (case batch_step_norm_only h flip_mask flip_coeff acc symmetry of
        None \<Rightarrow> None
      | Some acc \<Rightarrow> batches_norm_only h flip_mask flip_coeff acc rest)"

definition other_step_norm_only ::
  "basis_base_t \<Rightarrow> u64 vec8 \<Rightarrow> double vec8 \<Rightarrow> nat \<Rightarrow> batch_acc_64 \<Rightarrow> batched_small_symmetry_t
     \<Rightarrow> batch_acc_64 option" where
  "other_step_norm_only h flip_mask flip_coeff count acc symmetry =
     (let x = benes_forward (batch_network symmetry) (acc_original acc);
          re = eigenvalues_real symmetry
      in case update_first_few_norm_only acc x re count of
           None \<Rightarrow> None
         | Some acc \<Rightarrow>
             if spin_inversion h \<noteq> 0
             then update_first_few_norm_only acc (\<lambda>i. x i XOR flip_mask i)
                    (\<lambda>i. re i * flip_coeff i) count
             else Some acc)"

definition is_representative :: "basis_base_t \<Rightarrow> small_basis_t \<Rightarrow> u64 \<Rightarrow> failure + bool" where
  "is_representative h body bits =
     (if \<not> has_symmetries h then Inr True
      else case get_flip_mask_64 (number_spins h) of
        None \<Rightarrow> Inl Undefined
      | Some m \<Rightarrow>
          (let flip_mask = (\<lambda>i. m);
               flip_coeff = (\<lambda>i. real_of_int (spin_inversion h))
           in case batches_norm_only h flip_mask flip_coeff (batch_acc bits)
                     (batched_symmetries body) of
                None \<Rightarrow> Inr False
              | Some acc \<Rightarrow>
                  (case (case other_symmetries body of
                           None \<Rightarrow> Some acc
                         | Some symmetry \<Rightarrow>
                             other_step_norm_only h flip_mask flip_coeff
                               (number_other_symmetries body) acc symmetry) of
                     None \<Rightarrow> Inr False
                   | Some acc \<Rightarrow>
                       (let n = snap (reduce_norm_only acc)
                        in if \<not> n \<ge> 0 then Inl Fatal else Inr (n > 0)))))"

subsection \<open>get\_state\_info for wider patterns\<close>

text \<open>
  The loop body of the scalar path, for a pattern of any width: the source has it for
  \<open>bits512\<close>, and the same loop on 64 bits is what the batched path is compared with.
\<close>

definition scalar_step ::
  "basis_base_t \<Rightarrow> 'a::len word \<Rightarrow> 'a word \<Rightarrow> 'a word big_symmetry_t
     \<Rightarrow> 'a word \<times> double \<times> complex \<Rightarrow> 'a word \<times> double \<times> complex" where
  "scalar_step h bits flip_mask symmetry st =
     (case st of (r, n, e) \<Rightarrow>
        (let flip_coeff = real_of_int (spin_inversion h);
             buffer = big_network symmetry bits;
             st = (if buffer < r then (buffer, n, eigenvalue symmetry)
                   else if buffer = bits then (r, n + Re (eigenvalue symmetry), e)
                   else (r, n, e))
         in if spin_inversion h \<noteq> 0
            then (case st of (r, n, e) \<Rightarrow>
                    (let buffer = buffer XOR flip_mask
                     in if buffer < r
                          then (buffer, n, of_real flip_coeff * eigenvalue symmetry)
                        else if buffer = bits
                          then (r, n + flip_coeff * Re (eigenvalue symmetry), e)
                        else (r, n, e)))
            else st))"

definition big_group_size :: "basis_base_t \<Rightarrow> 'b big_basis_t \<Rightarrow> nat" where
  "big_group_size h body =
     ((if spin_inversion h \<noteq> 0 then 1 else 0) + 1) * length (symmetries body)"

definition scalar_state_info ::
  "basis_base_t \<Rightarrow> 'a::len word option \<Rightarrow> 'a word big_basis_t \<Rightarrow> 'a word
     \<Rightarrow> failure + 'a word \<times> complex \<times> norm_value" where
  "scalar_state_info h flip body bits =
     (if \<not> has_symmetries h then Inr (bits, Complex 1 0, Finite 1)
      else case flip of
        None \<Rightarrow> Inl Undefined
      | Some flip_mask \<Rightarrow>
          (case fold (scalar_step h bits flip_mask) (symmetries body) (bits, 0, 1) of
             (r, n, e) \<Rightarrow>
               (case finish_norm n (big_group_size h body) of
                  Inl f \<Rightarrow> Inl f
                | Inr nrm \<Rightarrow> Inr (r, e, nrm))))"

definition get_state_info_big ::
  "basis_base_t \<Rightarrow> bits512 big_basis_t \<Rightarrow> bits512
     \<Rightarrow> failure + bits512 \<times> complex \<times> norm_value" where
  "get_state_info_big h body bits =
     scalar_state_info h (get_flip_mask_512 (number_spins h)) body bits"

subsection \<open>The words of the spec for compose\<close>

text \<open>
  The spec's description of the result of \<open>compose\<close>, in unbounded arithmetic: the
  permutation that maps \<open>i\<close> to \<open>x.permutation[y.permutation[i]]\<close>, and the sum of two
  fractions \<open>sector/periodicity\<close> reduced to lowest terms, its numerator taken modulo its
  denominator.
\<close>

definition reduced_phase_sum :: "nat \<times> nat \<Rightarrow> nat \<times> nat \<Rightarrow> nat \<times> nat" where
  "reduced_phase_sum a b =
     (let num = fst a * snd b + fst b * snd a;
          den = snd a * snd b;
          g = gcd num den
      in ((num div g) mod (den div g), den div g))"

definition composed_permutation :: "u16 list \<Rightarrow> u16 list \<Rightarrow> u16 list" where
  "composed_permutation xp yp = map (\<lambda>i. xp ! unat (yp ! i)) [0..<length xp]"

text \<open>
  Concrete permutations for the examples. \<open>rotation start len\<close> is the cycle
  \<open>start \<rightarrow> start + 1 \<rightarrow> \<dots> \<rightarrow> start + len - 1 \<rightarrow> start\<close> written on its own positions,
  \<open>fixed_points start stop\<close> the identity on \<open>start..<stop\<close>. The three permutations are
  named after their cycle lengths: on 47 elements with cycles of lengths 8, 3, 5, 7 (order
  840) and 11, 13 (order 143) on disjoint supports, and on 43 elements with cycles of lengths
  4, 3, 5, 7, 11, 13 (order 60060).
\<close>

definition rotation :: "nat \<Rightarrow> nat \<Rightarrow> u16 list" where
  "rotation start len = map of_nat ([Suc start..<start + len] @ [start])"

definition fixed_points :: "nat \<Rightarrow> nat \<Rightarrow> u16 list" where
  "fixed_points start stop = map of_nat [start..<stop]"

definition cycles_8_3_5_7 :: "u16 list" where
  "cycles_8_3_5_7 =
     rotation 0 8 @ rotation 8 3 @ rotation 11 5 @ rotation 16 7 @ fixed_points 23 47"

definition cycles_11_13 :: "u16 list" where
  "cycles_11_13 = fixed_points 0 23 @ rotation 23 11 @ rotation 34 13"

definition cycles_4_3_5_7_11_13 :: "u16 list" where
  "cycles_4_3_5_7_11_13 =
     rotation 0 4 @ rotation 4 3 @ rotation 7 5 @ rotation 12 7 @ rotation 19 11
       @ rotation 30 13"

subsection \<open>Predicates for the properties of make\_group\<close>

text \<open>No element is equal to a later one.\<close>

fun pairwise_unequal :: "symmetry_spec_t list \<Rightarrow> bool" where
  "pairwise_unequal [] = True"
| "pairwise_unequal (g # gs) = ((\<forall>h\<in>set gs. equal g h = Inr False) \<and> pairwise_unequal gs)"

definition closed_under_compose :: "symmetry_spec_t list \<Rightarrow> bool" where
  "closed_under_compose grp \<longleftrightarrow>
     (\<forall>g1\<in>set grp. \<forall>g2\<in>set grp.
        \<exists>g. compose g1 g2 = Inr g \<and> (\<exists>h\<in>set grp. equal h g = Inr True))"

subsection \<open>The extended orbit and the lanes of the accumulator\<close>

text \<open>
  The words of the spec: the extended orbit of a pattern is what the group elements map it
  to and, with spin inversion, the flipped images; each element carries the eigenvalue of its
  group element, times the spin-inversion coefficient on the flipped branch. The stabilizer
  sum is the sum of the real parts over the elements that equal the pattern.
\<close>

definition orbit_pair ::
  "basis_base_t \<Rightarrow> 'a::len word \<Rightarrow> 'a word \<Rightarrow> ('a word \<Rightarrow> 'a word) \<times> complex
     \<Rightarrow> ('a word \<times> complex) list" where
  "orbit_pair h flip_mask bits g =
     (fst g bits, snd g)
       # (if spin_inversion h \<noteq> 0
          then [(fst g bits XOR flip_mask, of_real (real_of_int (spin_inversion h)) * snd g)]
          else [])"

definition extended_orbit ::
  "basis_base_t \<Rightarrow> 'a::len word \<Rightarrow> (('a word \<Rightarrow> 'a word) \<times> complex) list \<Rightarrow> 'a word
     \<Rightarrow> ('a word \<times> complex) list" where
  "extended_orbit h flip_mask grp bits = concat (map (orbit_pair h flip_mask bits) grp)"

definition stabilizer_sum :: "('a \<times> complex) list \<Rightarrow> 'a \<Rightarrow> real" where
  "stabilizer_sum orbit bits = sum_list (map (\<lambda>p. Re (snd p)) (filter (\<lambda>p. fst p = bits) orbit))"

text \<open>
  The compiled group of a small body in sequence order: the 8 lanes of each full batch, then
  the valid lanes of the remainder batch.
\<close>

definition batch_lane :: "batched_small_symmetry_t \<Rightarrow> nat \<Rightarrow> (u64 \<Rightarrow> u64) \<times> complex" where
  "batch_lane s i = (batch_network s i, Complex (eigenvalues_real s i) (eigenvalues_imag s i))"

definition small_group :: "small_basis_t \<Rightarrow> ((u64 \<Rightarrow> u64) \<times> complex) list" where
  "small_group body =
     concat (map (\<lambda>s. map (batch_lane s) [0..<8]) (batched_symmetries body))
       @ (case other_symmetries body of
            None \<Rightarrow> []
          | Some s \<Rightarrow> map (batch_lane s) [0..<number_other_symmetries body])"

definition big_group :: "'b big_basis_t \<Rightarrow> (('b \<Rightarrow> 'b) \<times> complex) list" where
  "big_group body = map (\<lambda>s. (big_network s, eigenvalue s)) (symmetries body)"

text \<open>
  One element of the extended orbit as a running minimum, its character and the stabilizer
  sum take it; \<open>lane_state\<close> is what one lane of the accumulator holds.
\<close>

definition lane_step ::
  "'a::linorder \<Rightarrow> 'a \<times> complex \<Rightarrow> 'a \<times> complex \<times> real \<Rightarrow> 'a \<times> complex \<times> real" where
  "lane_step bits p st =
     (case st of (r, e, n) \<Rightarrow>
        (if fst p < r then fst p else r,
         if fst p < r then snd p else e,
         if fst p = bits then n + Re (snd p) else n))"

definition lane_state :: "batch_acc_64 \<Rightarrow> nat \<Rightarrow> u64 \<times> complex \<times> real" where
  "lane_state acc i = (acc_r acc i, Complex (acc_e_re acc i) (acc_e_im acc i), acc_n acc i)"

text \<open>The elements that lane \<open>i\<close> of the accumulator sees, in the order it sees them.\<close>

definition lane_orbit ::
  "basis_base_t \<Rightarrow> u64 \<Rightarrow> small_basis_t \<Rightarrow> u64 \<Rightarrow> nat \<Rightarrow> (u64 \<times> complex) list" where
  "lane_orbit h m body bits i =
     concat (map (\<lambda>s. orbit_pair h m bits (batch_lane s i)) (batched_symmetries body))
       @ (case other_symmetries body of
            None \<Rightarrow> []
          | Some s \<Rightarrow>
              if i < number_other_symmetries body then orbit_pair h m bits (batch_lane s i)
              else [])"

text \<open>The accumulator of \<open>get_state_info\<close> after its two loops.\<close>

definition final_acc :: "basis_base_t \<Rightarrow> u64 \<Rightarrow> small_basis_t \<Rightarrow> u64 \<Rightarrow> failure + batch_acc_64" where
  "final_acc h m body bits =
     (let acc = fold (\<lambda>symmetry acc. batch_step h (\<lambda>i. m)
                        (\<lambda>i. real_of_int (spin_inversion h)) acc symmetry)
                  (batched_symmetries body) (batch_acc bits)
      in case other_symmetries body of
           None \<Rightarrow> Inr acc
         | Some symmetry \<Rightarrow>
             other_step h (\<lambda>i. m) (\<lambda>i. real_of_int (spin_inversion h))
               (number_other_symmetries body) acc symmetry)"

text \<open>One comparison of the tree reduction: the first of two lanes when strictly smaller.\<close>

definition pick2 :: "'a::linorder \<times> 'b \<Rightarrow> 'a \<times> 'b \<Rightarrow> 'a \<times> 'b" where
  "pick2 p q = (if fst p < fst q then p else q)"

definition lane_triple :: "batch_acc_64 \<Rightarrow> nat \<Rightarrow> u64 \<times> double \<times> double" where
  "lane_triple acc i = (acc_r acc i, acc_e_re acc i, acc_e_im acc i)"

text \<open>The extended orbit of a pattern under a header and a body.\<close>

definition small_orbit :: "basis_base_t \<Rightarrow> small_basis_t \<Rightarrow> u64 \<Rightarrow> (u64 \<times> complex) list" where
  "small_orbit h body bits =
     (case get_flip_mask_64 (number_spins h) of
        None \<Rightarrow> []
      | Some m \<Rightarrow> extended_orbit h m (small_group body) bits)"

definition big_orbit ::
  "basis_base_t \<Rightarrow> bits512 big_basis_t \<Rightarrow> bits512 \<Rightarrow> (bits512 \<times> complex) list" where
  "big_orbit h body bits =
     (case get_flip_mask_512 (number_spins h) of
        None \<Rightarrow> []
      | Some m \<Rightarrow> extended_orbit h m (big_group body) bits)"

text \<open>A group of two elements on two sites: the identity and the exchange of the sites.\<close>

definition swap_low_bits :: "u64 \<Rightarrow> u64" where
  "swap_low_bits x = (if x = 1 then 2 else if x = 2 then 1 else x)"

definition two_site_group :: small_basis_t where
  "two_site_group =
     \<lparr>batched_symmetries = [],
      other_symmetries =
        Some \<lparr>batch_network = (\<lambda>i. if i = 1 then swap_low_bits else (\<lambda>x. x)),
              eigenvalues_real = (\<lambda>i. 1), eigenvalues_imag = (\<lambda>i. 0)\<rparr>,
      number_other_symmetries = 2\<rparr>"

definition identity_only :: small_basis_t where
  "identity_only =
     \<lparr>batched_symmetries = [],
      other_symmetries =
        Some \<lparr>batch_network = (\<lambda>i x. x), eigenvalues_real = (\<lambda>i. 1),
              eigenvalues_imag = (\<lambda>i. 0)\<rparr>,
      number_other_symmetries = 1\<rparr>"

subsection \<open>The norm-only loops by lanes\<close>

text \<open>
  The norm-only updates never write \<open>r\<close>: every lane of \<open>r\<close> and of \<open>original\<close> holds the
  pattern throughout.
\<close>

definition clean_acc :: "batch_acc_64 \<Rightarrow> u64 \<Rightarrow> bool" where
  "clean_acc acc bits \<longleftrightarrow> acc_r acc = (\<lambda>i. bits) \<and> acc_original acc = (\<lambda>i. bits)"

text \<open>The sum the eight lanes of the accumulator hold together after the loops.\<close>

definition lane_sum :: "basis_base_t \<Rightarrow> u64 \<Rightarrow> small_basis_t \<Rightarrow> u64 \<Rightarrow> real" where
  "lane_sum h m body bits =
     horizontal_add (\<lambda>i. stabilizer_sum (lane_orbit h m body bits i) bits)"

text \<open>The comparison \<open>norm > 0.0\<close> of doubles: true of infinity, false of not-a-number.\<close>

fun positive_norm :: "norm_value \<Rightarrow> bool" where
  "positive_norm (Finite x) \<longleftrightarrow> 0 < x"
| "positive_norm PlusInfinity \<longleftrightarrow> True"
| "positive_norm NotANumber \<longleftrightarrow> False"

subsection \<open>The stabilizer sum and the effective group size\<close>





subsection \<open>The scalar path on patterns of at most 64 bits\<close>






section \<open>Properties of equal\<close>

text \<open>
  C6. \<open>equal x y\<close> fails with \<open>LS_INCOMPATIBLE_SYMMETRIES\<close> when the permutation lengths differ;
  otherwise it is false when the periodicities differ, false when the permutations differ,
  fails with \<open>LS_INCOMPATIBLE_SYMMETRIES\<close> when permutations and periodicities agree and the
  sectors differ, and is true otherwise. In particular \<open>equal x x\<close> is true.
\<close>

theorem equal_cases:
  "(length (permutation x) \<noteq> length (permutation y)
      \<longrightarrow> equal x y = Inl (Failure LS_INCOMPATIBLE_SYMMETRIES))
   \<and> (length (permutation x) = length (permutation y) \<and> periodicity x \<noteq> periodicity y
      \<longrightarrow> equal x y = Inr False)
   \<and> (length (permutation x) = length (permutation y) \<and> permutation x \<noteq> permutation y
      \<longrightarrow> equal x y = Inr False)
   \<and> (permutation x = permutation y \<and> periodicity x = periodicity y \<and> sector x \<noteq> sector y
      \<longrightarrow> equal x y = Inl (Failure LS_INCOMPATIBLE_SYMMETRIES))
   \<and> (permutation x = permutation y \<and> periodicity x = periodicity y \<and> sector x = sector y
      \<longrightarrow> equal x y = Inr True)
   \<and> equal x x = Inr True"
  by (simp add: equal_def)

theorem equal_cases_witness:
  "equal \<lparr>permutation = [0], sector = 0, periodicity = 1\<rparr>
         \<lparr>permutation = [1, 0], sector = 0, periodicity = 2\<rparr>
     = Inl (Failure LS_INCOMPATIBLE_SYMMETRIES)
   \<and> equal \<lparr>permutation = [0, 1], sector = 0, periodicity = 1\<rparr>
           \<lparr>permutation = [1, 0], sector = 0, periodicity = 2\<rparr> = Inr False
   \<and> equal \<lparr>permutation = [1, 2, 0], sector = 0, periodicity = 3\<rparr>
           \<lparr>permutation = [2, 0, 1], sector = 0, periodicity = 3\<rparr> = Inr False
   \<and> equal \<lparr>permutation = [1, 0], sector = 0, periodicity = 2\<rparr>
           \<lparr>permutation = [1, 0], sector = 1, periodicity = 2\<rparr>
     = Inl (Failure LS_INCOMPATIBLE_SYMMETRIES)
   \<and> equal \<lparr>permutation = [1, 0], sector = 1, periodicity = 2\<rparr>
           \<lparr>permutation = [1, 0], sector = 1, periodicity = 2\<rparr> = Inr True"
  using
    equal_cases [of "\<lparr>permutation = [0], sector = 0, periodicity = 1\<rparr>"
                    "\<lparr>permutation = [1, 0], sector = 0, periodicity = 2\<rparr>"]
    equal_cases [of "\<lparr>permutation = [0, 1], sector = 0, periodicity = 1\<rparr>"
                    "\<lparr>permutation = [1, 0], sector = 0, periodicity = 2\<rparr>"]
    equal_cases [of "\<lparr>permutation = [1, 2, 0], sector = 0, periodicity = 3\<rparr>"
                    "\<lparr>permutation = [2, 0, 1], sector = 0, periodicity = 3\<rparr>"]
    equal_cases [of "\<lparr>permutation = [1, 0], sector = 0, periodicity = 2\<rparr>"
                    "\<lparr>permutation = [1, 0], sector = 1, periodicity = 2\<rparr>"]
    equal_cases [of "\<lparr>permutation = [1, 0], sector = 1, periodicity = 2\<rparr>"
                    "\<lparr>permutation = [1, 0], sector = 1, periodicity = 2\<rparr>"]
  by simp

section \<open>The order of a permutation\<close>

lemma apply_perm_less:
  assumes "is_permutation p" "i < length p"
  shows "apply_perm p i < length p"
  using assms by (auto simp: is_permutation_def apply_perm_def list_all_iff)

lemma apply_perm_inj:
  assumes "is_permutation p" "i < length p" "j < length p" "apply_perm p i = apply_perm p j"
  shows "i = j"
proof -
  from assms(4) have "p ! i = p ! j"
    by (simp add: apply_perm_def word_unat_eq_iff)
  with assms show ?thesis
    by (simp add: is_permutation_def nth_eq_iff_index_eq)
qed

lemma funpow_perm_less:
  assumes "is_permutation p" "i < length p"
  shows "(apply_perm p ^^ k) i < length p"
  by (induction k) (simp_all add: assms apply_perm_less)

lemma funpow_perm_inj:
  assumes "is_permutation p" "i < length p" "j < length p"
    and "(apply_perm p ^^ k) i = (apply_perm p ^^ k) j"
  shows "i = j"
  using assms(4)
proof (induction k)
  case 0
  then show ?case by simp
next
  case (Suc k)
  then have "apply_perm p ((apply_perm p ^^ k) i) = apply_perm p ((apply_perm p ^^ k) j)"
    by simp
  then have "(apply_perm p ^^ k) i = (apply_perm p ^^ k) j"
    using apply_perm_inj [OF assms(1)] funpow_perm_less [OF assms(1)] assms(2,3) by blast
  then show ?case by (rule Suc.IH)
qed

lemma cycle_returns:
  assumes "is_permutation p" "i < length p"
  shows "\<exists>k. 1 \<le> k \<and> k \<le> length p \<and> (apply_perm p ^^ k) i = i"
proof -
  let ?g = "\<lambda>k. (apply_perm p ^^ k) i"
  have "?g ` {0..length p} \<subseteq> {..<length p}"
    using funpow_perm_less [OF assms] by auto
  then have "card (?g ` {0..length p}) \<le> card {..<length p}"
    by (intro card_mono) auto
  then have "card (?g ` {0..length p}) < card {0..length p}"
    by simp
  then have "\<not> inj_on ?g {0..length p}"
    by (rule pigeonhole)
  then obtain a b where ab: "a \<le> length p" "b \<le> length p" "a \<noteq> b" "?g a = ?g b"
    by (auto simp: inj_on_def)
  have key: "\<exists>k. 1 \<le> k \<and> k \<le> length p \<and> ?g k = i"
    if "a < b" "b \<le> length p" "?g a = ?g b" for a b
  proof -
    have "(apply_perm p ^^ (a + (b - a))) i = (apply_perm p ^^ a) ((apply_perm p ^^ (b - a)) i)"
      by (simp only: funpow_add o_apply)
    moreover have "a + (b - a) = b"
      using that by simp
    ultimately have "(apply_perm p ^^ a) ((apply_perm p ^^ (b - a)) i) = (apply_perm p ^^ a) i"
      using that by simp
    then have "(apply_perm p ^^ (b - a)) i = i"
      using funpow_perm_inj [OF assms(1) funpow_perm_less [OF assms] assms(2)] by blast
    with that show ?thesis
      by (intro exI [of _ "b - a"]) auto
  qed
  from ab show ?thesis
    using key [of a b] key [of b a] by (cases "a < b") (auto simp: not_less le_eq_less_or_eq)
qed

lemma cycle_length_props:
  assumes "is_permutation p" "i < length p"
  shows "0 < cycle_length p i"
    and "(apply_perm p ^^ cycle_length p i) i = i"
    and "\<And>j. 0 < j \<Longrightarrow> j < cycle_length p i \<Longrightarrow> (apply_perm p ^^ j) i \<noteq> i"
proof -
  let ?P = "\<lambda>k. (apply_perm p ^^ k) i = i"
  let ?xs = "[1..<Suc (length p)]"
  obtain k0 where "1 \<le> k0" "k0 \<le> length p" "?P k0"
    using cycle_returns [OF assms] by blast
  then have "\<exists>x. x \<in> set ?xs \<and> ?P x"
    by (intro exI [of _ k0]) auto
  then obtain k where k: "find ?P ?xs = Some k"
    using find_None_iff [of ?P ?xs] by (cases "find ?P ?xs") auto
  then have ck: "cycle_length p i = k"
    by (simp add: cycle_length_def)
  from k obtain m where m: "m < length ?xs" "?P (?xs ! m)" "k = ?xs ! m"
    "\<forall>j<m. \<not> ?P (?xs ! j)"
    unfolding find_Some_iff by blast
  from m(1,3) have km: "k = Suc m"
    by (simp add: nth_upt del: upt_Suc)
  show "0 < cycle_length p i"
    using km ck by simp
  show "(apply_perm p ^^ cycle_length p i) i = i"
    using m(2,3) ck by simp
  show "(apply_perm p ^^ j) i \<noteq> i" if "0 < j" "j < cycle_length p i" for j
  proof -
    from that km ck have "j - 1 < m"
      by simp
    with m(4) have "\<not> ?P (?xs ! (j - 1))"
      by blast
    moreover have "?xs ! (j - 1) = j"
      using that km ck m(1) by (simp add: nth_upt del: upt_Suc)
    ultimately show ?thesis
      by simp
  qed
qed

lemma funpow_cycle_mult:
  assumes "(f ^^ l) i = i"
  shows "(f ^^ (l * m)) i = i"
proof (induction m)
  case 0
  then show ?case by simp
next
  case (Suc m)
  have "(f ^^ (l * m + l)) i = (f ^^ (l * m)) ((f ^^ l) i)"
    by (simp only: funpow_add o_apply)
  with Suc assms show ?case
    by (simp add: add.commute)
qed

lemma cycle_length_dvd:
  assumes "is_permutation p" "i < length p"
  shows "(apply_perm p ^^ k) i = i \<longleftrightarrow> cycle_length p i dvd k"
proof -
  let ?l = "cycle_length p i"
  let ?f = "apply_perm p"
  note props = cycle_length_props [OF assms]
  have split: "(?f ^^ k) i = (?f ^^ (k mod ?l)) i"
  proof -
    have "(?f ^^ (k mod ?l + ?l * (k div ?l))) i = (?f ^^ (k mod ?l)) ((?f ^^ (?l * (k div ?l))) i)"
      by (simp only: funpow_add o_apply)
    then show ?thesis
      using funpow_cycle_mult [OF props(2), of "k div ?l"] by simp
  qed
  show ?thesis
  proof
    assume "(?f ^^ k) i = i"
    with split have "(?f ^^ (k mod ?l)) i = i"
      by simp
    moreover have "k mod ?l < ?l"
      using props(1) by simp
    ultimately have "k mod ?l = 0"
      using props(3) [of "k mod ?l"] by (cases "k mod ?l = 0") auto
    then show "?l dvd k"
      by (simp add: dvd_eq_mod_eq_0)
  next
    assume "?l dvd k"
    then show "(?f ^^ k) i = i"
      using funpow_cycle_mult [OF props(2)] by (auto simp: dvd_def)
  qed
qed

lemma fold_lcm_dvd:
  "fold lcm xs a dvd (k::nat) \<longleftrightarrow> a dvd k \<and> (\<forall>x\<in>set xs. x dvd k)"
  by (induction xs arbitrary: a) auto

lemma fold_lcm_pos:
  "0 < (a::nat) \<Longrightarrow> \<forall>x\<in>set xs. 0 < x \<Longrightarrow> 0 < fold lcm xs a"
  by (induction xs arbitrary: a) (auto simp: lcm_pos_nat)

lemma compute_periodicity_dvd:
  assumes "is_permutation p"
  shows "power_is_identity p k \<longleftrightarrow> compute_periodicity p dvd k"
  using cycle_length_dvd [OF assms]
  by (auto simp: power_is_identity_def compute_periodicity_def fold_lcm_dvd)

lemma compute_periodicity_pos:
  assumes "is_permutation p"
  shows "0 < compute_periodicity p"
  unfolding compute_periodicity_def
  by (rule fold_lcm_pos) (auto simp: cycle_length_props(1) [OF assms])

lemma compute_periodicity_is_order:
  assumes "is_permutation p"
  shows "is_order p (compute_periodicity p)"
  unfolding is_order_def compute_periodicity_dvd [OF assms]
  using compute_periodicity_pos [OF assms] by (auto dest: dvd_imp_le)

section \<open>Properties of compose\<close>

lemma unat_of_nat_small:
  "n < 2 ^ LENGTH('a::len) \<Longrightarrow> unat (word_of_nat n :: 'a word) = n"
  by (simp add: unat_of_nat)

lemma word_of_nat_unat_eq:
  "unat (w :: 'a::len word) = n \<Longrightarrow> w = word_of_nat n"
  by auto

lemma is_permutation_length:
  assumes "is_permutation p"
  shows "length p \<le> 65536"
proof -
  have "length p = card (set p)"
    using assms by (simp add: is_permutation_def distinct_card)
  also have "\<dots> \<le> card (UNIV :: u16 set)"
    by (rule card_mono) auto
  also have "\<dots> = 65536"
    by (simp add: card_word)
  finally show ?thesis .
qed

lemma compose_permutation_Some:
  assumes "length xp = length yp" "is_permutation yp"
  shows "compose_permutation xp yp = Some (composed_permutation xp yp)"
proof -
  have len: "length yp \<le> 65536"
    using assms(2) by (rule is_permutation_length)
  have iota: "unat (of_nat i :: u16) = i" if "i < length yp" for i
  proof -
    from that len have "i < 2 ^ LENGTH(16)"
      by simp
    then show ?thesis
      by (rule unat_of_nat_small)
  qed
  have "map (\<lambda>i. yp ! unat i) (map of_nat [0..<length xp] :: u16 list) = yp"
  proof (rule nth_equalityI)
    show "length (map (\<lambda>i. yp ! unat i) (map of_nat [0..<length xp] :: u16 list)) = length yp"
      using assms(1) by simp
    fix i assume "i < length (map (\<lambda>i. yp ! unat i) (map of_nat [0..<length xp] :: u16 list))"
    then have "i < length yp"
      using assms(1) by simp
    then show "map (\<lambda>i. yp ! unat i) (map of_nat [0..<length xp] :: u16 list) ! i = yp ! i"
      using assms(1) by (simp add: iota)
  qed
  moreover have "list_all (\<lambda>t. unat t < length xp) yp"
    using assms by (simp add: is_permutation_def)
  moreover have "map (\<lambda>t. xp ! unat t) yp = composed_permutation xp yp"
    unfolding composed_permutation_def
    by (rule nth_equalityI) (simp_all add: assms(1))
  ultimately show ?thesis
    by (simp add: compose_permutation_def Let_def)
qed

lemma is_permutation_composed:
  assumes "length xp = length yp" "is_permutation xp" "is_permutation yp"
  shows "is_permutation (composed_permutation xp yp)"
proof -
  let ?n = "length xp"
  have y_less: "unat (yp ! i) < ?n" if "i < ?n" for i
    using that assms(1,3) by (auto simp: is_permutation_def list_all_iff)
  have x_less: "unat (xp ! i) < ?n" if "i < ?n" for i
    using that assms(2) by (auto simp: is_permutation_def list_all_iff)
  have "distinct (composed_permutation xp yp)"
    unfolding composed_permutation_def distinct_map
  proof (intro conjI inj_onI)
    show "distinct [0..<?n]" by simp
    fix i j assume ij: "i \<in> set [0..<?n]" "j \<in> set [0..<?n]"
      and eq: "xp ! unat (yp ! i) = xp ! unat (yp ! j)"
    then have "unat (yp ! i) = unat (yp ! j)"
      using assms(2) y_less by (auto simp: is_permutation_def nth_eq_iff_index_eq)
    then have "yp ! i = yp ! j"
      by (simp add: word_unat_eq_iff)
    then show "i = j"
      using assms(1,3) ij by (auto simp: is_permutation_def nth_eq_iff_index_eq)
  qed
  moreover have "list_all (\<lambda>x. unat x < length (composed_permutation xp yp))
                   (composed_permutation xp yp)"
    using x_less y_less by (auto simp: composed_permutation_def list_all_iff)
  ultimately show ?thesis
    by (simp add: is_permutation_def)
qed

lemma rational_add_exact:
  fixes a1 a2 b1 b2 :: u32
  assumes nowrap: "unat a1 * unat b2 + unat b1 * unat a2 < 2 ^ 32"
    and den: "unat a2 * unat b2 < 2 ^ 32" "0 < unat a2 * unat b2"
  shows "rational_add (a1, a2) (b1, b2) =
           Some (of_nat (fst (reduced_phase_sum (unat a1, unat a2) (unat b1, unat b2))),
                 of_nat (snd (reduced_phase_sum (unat a1, unat a2) (unat b1, unat b2))))"
    and "fst (reduced_phase_sum (unat a1, unat a2) (unat b1, unat b2))
           < snd (reduced_phase_sum (unat a1, unat a2) (unat b1, unat b2))"
    and "0 < snd (reduced_phase_sum (unat a1, unat a2) (unat b1, unat b2))"
    and "snd (reduced_phase_sum (unat a1, unat a2) (unat b1, unat b2)) < 2 ^ 32"
proof -
  define num where "num = unat a1 * unat b2 + unat b1 * unat a2"
  define den where "den = unat a2 * unat b2"
  define g where "g = gcd num den"
  have rps: "reduced_phase_sum (unat a1, unat a2) (unat b1, unat b2)
               = ((num div g) mod (den div g), den div g)"
    by (simp add: reduced_phase_sum_def num_def den_def g_def Let_def)
  have g_pos: "0 < g" and g_le: "g \<le> den" and g_dvd: "g dvd den"
    using den(2) by (auto simp: g_def den_def intro!: gcd_le2_nat)
  have q_pos: "0 < den div g"
    using g_pos g_le by (simp add: div_greater_zero_iff)
  have q_le: "den div g \<le> den"
    by simp
  have m1: "unat (a1 * b2) = unat a1 * unat b2"
    using nowrap by (intro unat_mult_lem [THEN iffD1]) simp
  have m2: "unat (b1 * a2) = unat b1 * unat a2"
    using nowrap by (intro unat_mult_lem [THEN iffD1]) simp
  have up: "unat (a1 * b2 + b1 * a2) = num"
    using nowrap unat_add_lem [of "a1 * b2" "b1 * a2"] by (simp add: num_def m1 m2)
  have uq: "unat (a2 * b2) = den"
    using den(1) unat_mult_lem [of a2 b2] by (simp add: den_def)
  let ?m = "gcd_u32 (a1 * b2 + b1 * a2) (a2 * b2)"
  have "g < 2 ^ 32"
    using g_le den(1) by (simp add: den_def)
  then have ug: "unat ?m = g"
    by (simp add: gcd_u32_def up uq g_def unat_of_nat_small)
  have g_ne: "?m \<noteq> 0"
    using ug g_pos by auto
  have up': "unat ((a1 * b2 + b1 * a2) div ?m) = num div g"
    by (simp add: unat_div up ug)
  have uq': "unat ((a2 * b2) div ?m) = den div g"
    by (simp add: unat_div uq ug)
  have q_ne: "(a2 * b2) div ?m \<noteq> 0"
    using uq' q_pos by auto
  have "unat (((a1 * b2 + b1 * a2) div ?m) mod ((a2 * b2) div ?m)) = (num div g) mod (den div g)"
    by (simp add: unat_mod up' uq')
  then have "((a1 * b2 + b1 * a2) div ?m) mod ((a2 * b2) div ?m)
          = of_nat ((num div g) mod (den div g))"
    by (rule word_of_nat_unat_eq)
  moreover have "(a2 * b2) div ?m = of_nat (den div g)"
    using uq' by (rule word_of_nat_unat_eq)
  ultimately show "rational_add (a1, a2) (b1, b2) =
           Some (of_nat (fst (reduced_phase_sum (unat a1, unat a2) (unat b1, unat b2))),
                 of_nat (snd (reduced_phase_sum (unat a1, unat a2) (unat b1, unat b2))))"
    using g_ne q_ne by (simp add: rational_add_def Let_def rps)
  show "fst (reduced_phase_sum (unat a1, unat a2) (unat b1, unat b2))
           < snd (reduced_phase_sum (unat a1, unat a2) (unat b1, unat b2))"
    using q_pos by (simp add: rps)
  show "0 < snd (reduced_phase_sum (unat a1, unat a2) (unat b1, unat b2))"
    using q_pos by (simp add: rps)
  show "snd (reduced_phase_sum (unat a1, unat a2) (unat b1, unat b2)) < 2 ^ 32"
    using le_less_trans [OF q_le] den(1) by (simp add: rps den_def)
qed

lemma ucast_u16_u32: "unat (ucast (w :: u16) :: u32) = unat w"
proof -
  have "unat w < 2 ^ 16"
    using unsigned_less [of w] by simp
  then have "unat w < 2 ^ 32"
    by simp
  then show ?thesis
    by (simp add: unsigned_ucast_eq take_bit_nat_eq_self)
qed

lemma ucast_of_nat_u32_u16: "(ucast (of_nat n :: u32) :: u16) = of_nat n"
  by (simp add: unsigned_of_nat word_of_nat_eq_iff min_def)

text \<open>
  C1, as the code has it. For two specs on the same number of sites whose permutations are
  permutations, with sectors below their periodicities, such that the \<open>unsigned\<close> sum of
  \<open>rational_add\<close> does not wrap and the order \<open>P\<close> of the composed permutation fits
  \<open>uint16_t\<close>: \<open>compose x y\<close> fails with \<open>LS_INCOMPATIBLE_SYMMETRIES\<close> exactly when
  \<open>q > P\<close> or \<open>P mod q \<noteq> 0\<close>, where \<open>(p, q)\<close> is the reduced sum of the two phases, and
  otherwise returns the composed permutation with periodicity \<open>P\<close>, the order of that
  permutation, and sector \<open>p * (P div q) < P\<close>.
\<close>

theorem compose_exact:
  fixes x y :: symmetry_spec_t
  defines "perm \<equiv> composed_permutation (permutation x) (permutation y)"
  defines "P \<equiv> compute_periodicity perm"
  defines "phase \<equiv> reduced_phase_sum (unat (sector x), unat (periodicity x))
                                        (unat (sector y), unat (periodicity y))"
  assumes len: "length (permutation x) = length (permutation y)"
    and perms: "is_permutation (permutation x)" "is_permutation (permutation y)"
    and sectors: "sector x < periodicity x" "sector y < periodicity y"
    and nowrap: "unat (sector x) * unat (periodicity y)
                   + unat (sector y) * unat (periodicity x) < 2 ^ 32"
    and small: "P < 2 ^ 16"
  shows "is_order perm P
     \<and> compose x y =
         (if snd phase > P \<or> P mod snd phase \<noteq> 0
          then Inl (Failure LS_INCOMPATIBLE_SYMMETRIES)
          else Inr \<lparr>permutation = perm,
                    sector = of_nat (fst phase * (P div snd phase)),
                    periodicity = of_nat P\<rparr>)
     \<and> (\<not> (snd phase > P \<or> P mod snd phase \<noteq> 0) \<longrightarrow> fst phase * (P div snd phase) < P)"
proof -
  let ?a1 = "ucast (sector x) :: u32" and ?a2 = "ucast (periodicity x) :: u32"
  let ?b1 = "ucast (sector y) :: u32" and ?b2 = "ucast (periodicity y) :: u32"
  have perm_ok: "is_permutation perm"
    unfolding perm_def using len perms by (rule is_permutation_composed)
  have order: "is_order perm P"
    unfolding P_def using perm_ok by (rule compute_periodicity_is_order)
  have cp: "compose_permutation (permutation x) (permutation y) = Some perm"
    unfolding perm_def using len perms(2) by (rule compose_permutation_Some)
  have Px: "0 < unat (periodicity x)" and Py: "0 < unat (periodicity y)"
    using sectors by (auto simp: word_less_nat_alt)
  have "unat (periodicity x) < 2 ^ 16" "unat (periodicity y) < 2 ^ 16"
    using unsigned_less [of "periodicity x"] unsigned_less [of "periodicity y"] by simp_all
  then have "unat (periodicity x) * unat (periodicity y) < 2 ^ 16 * 2 ^ 16"
    by (intro mult_strict_mono) simp_all
  then have den: "unat ?a2 * unat ?b2 < 2 ^ 32" "0 < unat ?a2 * unat ?b2"
    using Px Py by (simp_all add: ucast_u16_u32)
  have nowrap': "unat ?a1 * unat ?b2 + unat ?b1 * unat ?a2 < 2 ^ 32"
    using nowrap by (simp add: ucast_u16_u32)
  note ra = rational_add_exact [OF nowrap' den, unfolded ucast_u16_u32, folded phase_def]
  let ?p = "fst phase" and ?q = "snd phase"
  have uP: "unat (of_nat P :: u32) = P"
    using small by (intro unat_of_nat_small) simp
  have uq: "unat (of_nat ?q :: u32) = ?q"
    using ra(4) by (intro unat_of_nat_small) simp
  have up: "unat (of_nat ?p :: u32) = ?p"
    using ra(2,4) by (intro unat_of_nat_small) simp
  have gt: "(of_nat ?q :: u32) > of_nat P \<longleftrightarrow> ?q > P"
    by (simp add: word_less_nat_alt uP uq)
  have md: "(of_nat P :: u32) mod of_nat ?q \<noteq> 0 \<longleftrightarrow> P mod ?q \<noteq> 0"
    by (simp add: unat_mod uP uq flip: unat_eq_0)
  have bound: "?p * (P div ?q) < P" if "\<not> (?q > P \<or> P mod ?q \<noteq> 0)"
  proof -
    from that ra(3) have "0 < P div ?q"
      by (simp add: div_greater_zero_iff)
    with ra(2) have "?p * (P div ?q) < ?q * (P div ?q)"
      by simp
    also from that have "\<dots> = P"
      by (simp add: mod_eq_0_iff_dvd)
    finally show ?thesis .
  qed
  have sec: "(ucast ((of_nat ?p :: u32) * (of_nat P div of_nat ?q)) :: u16)
               = of_nat (?p * (P div ?q))"
    if "\<not> (?q > P \<or> P mod ?q \<noteq> 0)"
  proof -
    have "unat ((of_nat P :: u32) div of_nat ?q) = P div ?q"
      by (simp add: unat_div uP uq)
    moreover have "?p * (P div ?q) < 2 ^ 32"
      using bound [OF that] small by simp
    ultimately have "unat ((of_nat ?p :: u32) * (of_nat P div of_nat ?q)) = ?p * (P div ?q)"
      using unat_mult_lem [of "of_nat ?p :: u32" "of_nat P div of_nat ?q"] by (simp add: up)
    then have "(of_nat ?p :: u32) * (of_nat P div of_nat ?q) = of_nat (?p * (P div ?q))"
      by (rule word_of_nat_unat_eq)
    then show ?thesis
      by (simp only: ucast_of_nat_u32_u16)
  qed
  have per: "(ucast (of_nat P :: u32) :: u16) = of_nat P"
    by (simp only: ucast_of_nat_u32_u16)
  have "compose x y =
         (if ?q > P \<or> P mod ?q \<noteq> 0
          then Inl (Failure LS_INCOMPATIBLE_SYMMETRIES)
          else Inr \<lparr>permutation = perm,
                    sector = of_nat (?p * (P div ?q)),
                    periodicity = of_nat P\<rparr>)"
    using len sec by (simp add: compose_def cp ra(1) Let_def gt md per flip: P_def)
  with order bound show ?thesis
    by blast
qed

lemma fold_lcm_replicate:
  "0 < n \<Longrightarrow> fold lcm (replicate n x) (a::nat) = lcm x a"
proof (induction n arbitrary: a)
  case 0
  then show ?case by simp
next
  case (Suc n)
  then show ?case
    by (cases "n = 0") simp_all
qed

lemma periodicity_cycles_8_3_5_7: "compute_periodicity cycles_8_3_5_7 = 840"
proof -
  have "length cycles_8_3_5_7 = 47"
    by (simp add: cycles_8_3_5_7_def rotation_def fixed_points_def)
  moreover have "map (cycle_length cycles_8_3_5_7) [0..<47] =
      replicate 8 8 @ replicate 3 3 @ replicate 5 5 @ replicate 7 7 @ replicate 24 1"
    unfolding cycles_8_3_5_7_def by code_simp
  ultimately show ?thesis
    by (simp only: compute_periodicity_def)
      (simp add: fold_lcm_replicate lcm_nat_def gcd_non_0_nat del: fold_replicate)
qed

lemma composed_wide:
  "composed_permutation cycles_8_3_5_7 cycles_11_13 =
     rotation 0 8 @ rotation 8 3 @ rotation 11 5 @ rotation 16 7 @ rotation 23 11
       @ rotation 34 13"
  unfolding cycles_8_3_5_7_def cycles_11_13_def by code_simp

lemma periodicity_composed_wide:
  "compute_periodicity (composed_permutation cycles_8_3_5_7 cycles_11_13) = 120120"
proof -
  let ?p = "composed_permutation cycles_8_3_5_7 cycles_11_13"
  have "length ?p = 47"
    by (simp add: composed_permutation_def cycles_8_3_5_7_def rotation_def fixed_points_def)
  moreover have "map (cycle_length ?p) [0..<47] =
      replicate 8 8 @ replicate 3 3 @ replicate 5 5 @ replicate 7 7 @ replicate 11 11
        @ replicate 13 13"
    unfolding composed_wide by code_simp
  ultimately show ?thesis
    by (simp only: compute_periodicity_def)
      (simp add: fold_lcm_replicate lcm_nat_def gcd_non_0_nat del: fold_replicate)
qed

lemma periodicity_cycles_11_13: "compute_periodicity cycles_11_13 = 143"
proof -
  have "length cycles_11_13 = 47"
    by (simp add: cycles_11_13_def rotation_def fixed_points_def)
  moreover have "map (cycle_length cycles_11_13) [0..<47] =
      replicate 23 1 @ replicate 11 11 @ replicate 13 13"
    unfolding cycles_11_13_def by code_simp
  ultimately show ?thesis
    by (simp only: compute_periodicity_def)
      (simp add: fold_lcm_replicate lcm_nat_def gcd_non_0_nat del: fold_replicate)
qed

lemma periodicity_cycles_4_3_5_7_11_13: "compute_periodicity cycles_4_3_5_7_11_13 = 60060"
proof -
  have "length cycles_4_3_5_7_11_13 = 43"
    by (simp add: cycles_4_3_5_7_11_13_def rotation_def)
  moreover have "map (cycle_length cycles_4_3_5_7_11_13) [0..<43] =
      replicate 4 4 @ replicate 3 3 @ replicate 5 5 @ replicate 7 7 @ replicate 11 11
        @ replicate 13 13"
    unfolding cycles_4_3_5_7_11_13_def by code_simp
  ultimately show ?thesis
    by (simp only: compute_periodicity_def)
      (simp add: fold_lcm_replicate lcm_nat_def gcd_non_0_nat del: fold_replicate)
qed

lemma periodicity_composed_square:
  "compute_periodicity (composed_permutation cycles_4_3_5_7_11_13 cycles_4_3_5_7_11_13) = 30030"
proof -
  let ?p = "composed_permutation cycles_4_3_5_7_11_13 cycles_4_3_5_7_11_13"
  have "length ?p = 43"
    by (simp add: composed_permutation_def cycles_4_3_5_7_11_13_def rotation_def)
  moreover have "map (cycle_length ?p) [0..<43] =
      replicate 4 2 @ replicate 3 3 @ replicate 5 5 @ replicate 7 7 @ replicate 11 11
        @ replicate 13 13"
    unfolding cycles_4_3_5_7_11_13_def by code_simp
  ultimately show ?thesis
    by (simp only: compute_periodicity_def)
      (simp add: fold_lcm_replicate lcm_nat_def gcd_non_0_nat del: fold_replicate)
qed

lemma is_permutation_examples:
  "is_permutation cycles_8_3_5_7" "is_permutation cycles_11_13"
  "is_permutation cycles_4_3_5_7_11_13"
  unfolding cycles_8_3_5_7_def cycles_11_13_def cycles_4_3_5_7_11_13_def by code_simp+

theorem compose_exact_witness:
  "compose \<lparr>permutation = [1, 2, 3, 0], sector = 1, periodicity = 4\<rparr>
           \<lparr>permutation = [1, 2, 3, 0], sector = 1, periodicity = 4\<rparr>
     = Inr \<lparr>permutation = [2, 3, 0, 1], sector = 1, periodicity = 2\<rparr>"
proof -
  have perm: "composed_permutation [1, 2, 3, 0] [1, 2, 3, 0] = [2, 3, 0, 1]"
    by code_simp
  have P: "compute_periodicity [2, 3, 0, 1] = 2"
    by code_simp
  have phase: "reduced_phase_sum (Suc 0, 4) (Suc 0, 4) = (1, 2)"
    by code_simp
  have valid: "is_permutation [1, 2, 3, 0]"
    by code_simp
  show ?thesis
    using compose_exact [of "\<lparr>permutation = [1, 2, 3, 0], sector = 1, periodicity = 4\<rparr>"
                            "\<lparr>permutation = [1, 2, 3, 0], sector = 1, periodicity = 4\<rparr>"]
    by (simp add: perm P phase valid)
qed

text \<open>
  C1 as stated fails on valid specs. The composition of a permutation of order 840 with one
  of order 143 has order 120120, and \<open>compose\<close> returns the periodicity
  \<open>120120 mod 65536 = 54584\<close>. The square of a spec of order 60060 and sector 45045 has the
  phase \<open>1/2\<close> and order 30030, so the claim gives sector 15015, but the \<open>unsigned\<close> sum
  \<open>2 * 45045 * 60060\<close> wraps and \<open>compose\<close> fails.
\<close>

theorem compose_wide_counterexample:
  "is_permutation cycles_8_3_5_7 \<and> compute_periodicity cycles_8_3_5_7 = 840
   \<and> is_permutation cycles_11_13 \<and> compute_periodicity cycles_11_13 = 143
   \<and> compute_periodicity (composed_permutation cycles_8_3_5_7 cycles_11_13) = 120120
   \<and> compose \<lparr>permutation = cycles_8_3_5_7, sector = 0, periodicity = 840\<rparr>
              \<lparr>permutation = cycles_11_13, sector = 0, periodicity = 143\<rparr>
       = Inr \<lparr>permutation = composed_permutation cycles_8_3_5_7 cycles_11_13,
              sector = 0, periodicity = 54584\<rparr>
   \<and> is_permutation cycles_4_3_5_7_11_13
   \<and> compute_periodicity cycles_4_3_5_7_11_13 = 60060
   \<and> compute_periodicity
         (composed_permutation cycles_4_3_5_7_11_13 cycles_4_3_5_7_11_13) = 30030
   \<and> reduced_phase_sum (45045, 60060) (45045, 60060) = (1, 2)
   \<and> compose \<lparr>permutation = cycles_4_3_5_7_11_13, sector = 45045, periodicity = 60060\<rparr>
              \<lparr>permutation = cycles_4_3_5_7_11_13, sector = 45045, periodicity = 60060\<rparr>
       = Inl (Failure LS_INCOMPATIBLE_SYMMETRIES)"
proof -
  have wide_len: "length cycles_8_3_5_7 = length cycles_11_13"
    by (simp add: cycles_8_3_5_7_def cycles_11_13_def rotation_def fixed_points_def)
  have wide_perm: "compose_permutation cycles_8_3_5_7 cycles_11_13
      = Some (composed_permutation cycles_8_3_5_7 cycles_11_13)"
    using wide_len is_permutation_examples(2) by (rule compose_permutation_Some)
  have wide_phase: "rational_add (0, 840) (0, 143) = Some (0, 1)"
    by (simp add: rational_add_def gcd_u32_def Let_def)
  have wide: "compose \<lparr>permutation = cycles_8_3_5_7, sector = 0, periodicity = 840\<rparr>
              \<lparr>permutation = cycles_11_13, sector = 0, periodicity = 143\<rparr>
       = Inr \<lparr>permutation = composed_permutation cycles_8_3_5_7 cycles_11_13,
              sector = 0, periodicity = 54584\<rparr>"
    by (simp add: compose_def wide_len wide_perm wide_phase periodicity_composed_wide Let_def)
  have sq_perm: "compose_permutation cycles_4_3_5_7_11_13 cycles_4_3_5_7_11_13
      = Some (composed_permutation cycles_4_3_5_7_11_13 cycles_4_3_5_7_11_13)"
    by (rule compose_permutation_Some) (simp_all add: is_permutation_examples)
  have sq_phase: "rational_add (45045, 60060) (45045, 60060) = Some (139479763, 450900450)"
    by (simp add: rational_add_def gcd_u32_def Let_def gcd_non_0_nat)
  have sq: "compose \<lparr>permutation = cycles_4_3_5_7_11_13, sector = 45045, periodicity = 60060\<rparr>
              \<lparr>permutation = cycles_4_3_5_7_11_13, sector = 45045, periodicity = 60060\<rparr>
       = Inl (Failure LS_INCOMPATIBLE_SYMMETRIES)"
    by (simp add: compose_def sq_perm sq_phase periodicity_composed_square Let_def)
  have exact: "reduced_phase_sum (45045, 60060) (45045, 60060) = (1, 2)"
    by (simp add: reduced_phase_sum_def Let_def gcd_non_0_nat)
  show ?thesis
    by (simp only: is_permutation_examples periodicity_cycles_8_3_5_7 periodicity_cycles_11_13
        periodicity_composed_wide wide periodicity_cycles_4_3_5_7_11_13
        periodicity_composed_square exact sq simp_thms)
qed

section \<open>Properties of make\_group\<close>

lemma equal_sym: "equal x y = equal y x"
  by (auto simp: equal_def)

lemma equal_refl: "equal x x = Inr True"
  by (simp add: equal_def)

lemma contains_True:
  "contains gs x = Inr True \<Longrightarrow> \<exists>h\<in>set gs. equal h x = Inr True"
  by (induction gs) (auto split: sum.splits if_splits)

lemma contains_False:
  "contains gs x = Inr False \<Longrightarrow> \<forall>h\<in>set gs. equal h x = Inr False"
  by (induction gs) (auto split: sum.splits if_splits)

lemma pairwise_unequal_snoc:
  "pairwise_unequal (gs @ [g]) \<longleftrightarrow> pairwise_unequal gs \<and> (\<forall>h\<in>set gs. equal h g = Inr False)"
  by (induction gs) auto

lemma pairwise_unequal_nth:
  assumes "pairwise_unequal gs" "i < length gs" "j < length gs" "i \<noteq> j"
  shows "equal (gs ! i) (gs ! j) = Inr False"
proof -
  have less: "equal (gs ! i) (gs ! j) = Inr False"
    if "pairwise_unequal gs" "i < j" "j < length gs" for i j gs
    using that
  proof (induction gs arbitrary: i j)
    case Nil
    then show ?case by simp
  next
    case (Cons g gs)
    show ?case
    proof (cases i)
      case 0
      with Cons.prems show ?thesis
        by (cases j) auto
    next
      case (Suc i')
      with Cons.prems obtain j' where "j = Suc j'" "i' < j'" "j' < length gs"
        by (cases j) auto
      with Cons Suc show ?thesis
        by simp
    qed
  qed
  show ?thesis
  proof (cases "i < j")
    case True
    with assms less show ?thesis by blast
  next
    case False
    with assms have "j < i" by simp
    with assms less [of gs j i] show ?thesis
      by (simp add: equal_sym [of "gs ! i"])
  qed
qed

lemma add_generators_props:
  assumes "add_generators grp gens = Inr grp'" "pairwise_unequal grp"
  shows "pairwise_unequal grp'"
    and "set grp \<subseteq> set grp'"
    and "\<forall>g\<in>set gens. \<exists>h\<in>set grp'. equal h g = Inr True"
  using assms
proof (induction gens arbitrary: grp)
  case Nil
  {
    case 1 then show ?case by simp
  next
    case 2 then show ?case by simp
  next
    case 3 then show ?case by simp
  }
next
  case (Cons g gens)
  {
    case 1
    then show ?case
      using Cons.IH(1) contains_False [of grp g]
      by (auto split: sum.splits if_splits simp: pairwise_unequal_snoc)
  next
    case 2
    then show ?case
      using Cons.IH(2) [of "grp"] Cons.IH(2) [of "grp @ [g]"] contains_False [of grp g]
      by (auto split: sum.splits if_splits simp: pairwise_unequal_snoc)
  next
    case 3
    then obtain c where c: "contains grp g = Inr c"
      and rest: "add_generators (if c then grp else grp @ [g]) gens = Inr grp'"
      by (auto split: sum.splits)
    let ?grp = "if c then grp else grp @ [g]"
    have pu: "pairwise_unequal ?grp"
      using 3(2) c contains_False [of grp g] by (auto simp: pairwise_unequal_snoc)
    have "\<exists>h\<in>set ?grp. equal h g = Inr True"
      using c contains_True [of grp g] by (cases c) (auto simp: equal_refl)
    moreover have "set ?grp \<subseteq> set grp'"
      using Cons.IH(2) [OF rest pu] .
    ultimately have "\<exists>h\<in>set grp'. equal h g = Inr True"
      by blast
    with Cons.IH(3) [OF rest pu] show ?case
      by simp
  }
qed


lemma compose_pair_cases:
  assumes "compose_pair grp extra g1 g2 = Inr extra'"
  obtains g where "compose g1 g2 = Inr g" "contains grp g = Inr True" "extra' = extra"
  | g where "compose g1 g2 = Inr g" "contains grp g = Inr False"
      "contains extra g = Inr True" "extra' = extra"
  | g where "compose g1 g2 = Inr g" "contains grp g = Inr False"
      "contains extra g = Inr False" "extra' = extra @ [g]"
  using assms unfolding compose_pair_def
  by (auto split: sum.splits if_splits)

lemma compose_pair_props:
  assumes "compose_pair grp extra g1 g2 = Inr extra'"
  shows "\<exists>zs. extra' = extra @ zs"
    and "pairwise_unequal (grp @ extra) \<Longrightarrow> pairwise_unequal (grp @ extra')"
    and "extra' = [] \<Longrightarrow> \<exists>g. compose g1 g2 = Inr g \<and> (\<exists>h\<in>set grp. equal h g = Inr True)"
proof -
  show "\<exists>zs. extra' = extra @ zs"
    using assms by (rule compose_pair_cases) auto
  show "pairwise_unequal (grp @ extra')" if "pairwise_unequal (grp @ extra)"
    using assms
  proof (rule compose_pair_cases)
    fix g assume "contains grp g = Inr False" "contains extra g = Inr False"
      and "extra' = extra @ [g]"
    then show ?thesis
      using that contains_False [of grp g] contains_False [of extra g]
        pairwise_unequal_snoc [of "grp @ extra" g] by auto
  qed (use that in auto)
  show "\<exists>g. compose g1 g2 = Inr g \<and> (\<exists>h\<in>set grp. equal h g = Inr True)" if "extra' = []"
    using assms
  proof (rule compose_pair_cases)
    fix g assume "compose g1 g2 = Inr g" "contains grp g = Inr True"
    then show ?thesis
      using contains_True [of grp g] by blast
  next
    fix g assume "contains extra g = Inr True" "extra' = extra"
    with that show ?thesis
      by simp
  next
    fix g assume "extra' = extra @ [g]"
    with that show ?thesis
      by simp
  qed
qed

lemma compose_row_props:
  assumes "compose_row grp g1 extra gs = Inr extra'"
  shows "\<exists>zs. extra' = extra @ zs"
    and "pairwise_unequal (grp @ extra) \<Longrightarrow> pairwise_unequal (grp @ extra')"
    and "extra' = [] \<Longrightarrow>
           \<forall>g2\<in>set gs. \<exists>g. compose g1 g2 = Inr g \<and> (\<exists>h\<in>set grp. equal h g = Inr True)"
  using assms
proof (induction gs arbitrary: extra)
  case Nil
  {
    case 1 then show ?case by simp
  next
    case 2 then show ?case by simp
  next
    case 3 then show ?case by simp
  }
next
  case (Cons g2 gs)
  {
    case 1
    then obtain mid where mid: "compose_pair grp extra g1 g2 = Inr mid"
      and rest: "compose_row grp g1 mid gs = Inr extra'"
      by (auto split: sum.splits)
    from compose_pair_props(1) [OF mid] Cons.IH(1) [OF rest] show ?case
      by auto
  next
    case 2
    then obtain mid where mid: "compose_pair grp extra g1 g2 = Inr mid"
      and rest: "compose_row grp g1 mid gs = Inr extra'"
      by (auto split: sum.splits)
    from compose_pair_props(2) [OF mid 2(1)] Cons.IH(2) [OF _ rest] show ?case
      by blast
  next
    case 3
    then obtain mid where mid: "compose_pair grp extra g1 g2 = Inr mid"
      and rest: "compose_row grp g1 mid gs = Inr extra'"
      by (auto split: sum.splits)
    from Cons.IH(1) [OF rest] 3(1) have "mid = []"
      by auto
    with compose_pair_props(3) [OF mid] Cons.IH(3) [OF 3(1) rest] show ?case
      by auto
  }
qed

lemma compose_all_props:
  assumes "compose_all grp extra gs = Inr extra'"
  shows "\<exists>zs. extra' = extra @ zs"
    and "pairwise_unequal (grp @ extra) \<Longrightarrow> pairwise_unequal (grp @ extra')"
    and "extra' = [] \<Longrightarrow>
           \<forall>g1\<in>set gs. \<forall>g2\<in>set grp.
             \<exists>g. compose g1 g2 = Inr g \<and> (\<exists>h\<in>set grp. equal h g = Inr True)"
  using assms
proof (induction gs arbitrary: extra)
  case Nil
  {
    case 1 then show ?case by simp
  next
    case 2 then show ?case by simp
  next
    case 3 then show ?case by simp
  }
next
  case (Cons g1 gs)
  {
    case 1
    then obtain mid where mid: "compose_row grp g1 extra grp = Inr mid"
      and rest: "compose_all grp mid gs = Inr extra'"
      by (auto split: sum.splits)
    from compose_row_props(1) [OF mid] Cons.IH(1) [OF rest] show ?case
      by auto
  next
    case 2
    then obtain mid where mid: "compose_row grp g1 extra grp = Inr mid"
      and rest: "compose_all grp mid gs = Inr extra'"
      by (auto split: sum.splits)
    from compose_row_props(2) [OF mid 2(1)] Cons.IH(2) [OF _ rest] show ?case
      by blast
  next
    case 3
    then obtain mid where mid: "compose_row grp g1 extra grp = Inr mid"
      and rest: "compose_all grp mid gs = Inr extra'"
      by (auto split: sum.splits)
    from Cons.IH(1) [OF rest] 3(1) have "mid = []"
      by auto
    with compose_row_props(3) [OF mid] Cons.IH(3) [OF 3(1) rest] show ?case
      by auto
  }
qed

lemma close_group_props_aux:
  assumes "close_group grp0 = Some r0"
  shows "\<forall>res. r0 = Inr res \<longrightarrow> pairwise_unequal grp0 \<longrightarrow>
           pairwise_unequal res \<and> set grp0 \<subseteq> set res \<and> closed_under_compose res"
proof (rule close_group.raw_induct [OF _ assms])
  fix close_group' grp r
  assume IH: "\<And>x y. close_group' x = Some y \<Longrightarrow>
      \<forall>res. y = Inr res \<longrightarrow> pairwise_unequal x \<longrightarrow>
        pairwise_unequal res \<and> set x \<subseteq> set res \<and> closed_under_compose res"
    and body: "(case compose_all grp [] grp of
                  Inl e \<Rightarrow> Some (Inl e)
                | Inr extra \<Rightarrow>
                    if extra = [] then Some (Inr grp) else close_group' (grp @ extra)) = Some r"
  show "\<forall>res. r = Inr res \<longrightarrow> pairwise_unequal grp \<longrightarrow>
          pairwise_unequal res \<and> set grp \<subseteq> set res \<and> closed_under_compose res"
  proof (intro allI impI)
    fix res
    assume r: "r = Inr res" and pu: "pairwise_unequal grp"
    from body r obtain extra where extra: "compose_all grp [] grp = Inr extra"
      by (auto split: sum.splits)
    show "pairwise_unequal res \<and> set grp \<subseteq> set res \<and> closed_under_compose res"
    proof (cases "extra = []")
      case True
      with body r extra have "res = grp"
        by simp
      with compose_all_props(3) [OF extra True] pu show ?thesis
        by (simp add: closed_under_compose_def)
    next
      case False
      with body extra have "close_group' (grp @ extra) = Some r"
        by simp
      moreover have "pairwise_unequal (grp @ extra)"
        using compose_all_props(2) [OF extra] pu by simp
      ultimately have "pairwise_unequal res \<and> set (grp @ extra) \<subseteq> set res
          \<and> closed_under_compose res"
        using r IH by blast
      then show ?thesis
        by simp
    qed
  qed
qed

lemma close_group_props:
  assumes "close_group grp = Some (Inr res)" "pairwise_unequal grp"
  shows "pairwise_unequal res \<and> set grp \<subseteq> set res \<and> closed_under_compose res"
  using close_group_props_aux [OF assms(1)] assms(2) by blast

text \<open>
  C2. When \<open>make_group\<close> returns a group, the group contains an element equal to each
  generator, no two of its elements at different positions are equal, and for every ordered
  pair of its elements \<open>compose\<close> succeeds with a result equal to one of its elements.
\<close>

theorem make_group_closed:
  assumes "make_group generators = Some (Inr grp)"
  shows "(\<forall>g\<in>set generators. \<exists>h\<in>set grp. equal h g = Inr True)
     \<and> (\<forall>i<length grp. \<forall>j<length grp. i \<noteq> j \<longrightarrow> equal (grp ! i) (grp ! j) = Inr False)
     \<and> (\<forall>g1\<in>set grp. \<forall>g2\<in>set grp.
          \<exists>g. compose g1 g2 = Inr g \<and> (\<exists>h\<in>set grp. equal h g = Inr True))"
proof (cases "generators = []")
  case True
  with assms show ?thesis
    by (simp add: make_group_def)
next
  case False
  with assms obtain start where start: "add_generators [] generators = Inr start"
    and close: "close_group start = Some (Inr grp)"
    by (auto simp: make_group_def split: sum.splits)
  have "pairwise_unequal []"
    by simp
  note gens = add_generators_props [OF start this]
  from close_group_props [OF close gens(1)]
  have res: "pairwise_unequal grp" "set start \<subseteq> set grp" "closed_under_compose grp"
    by simp_all
  from gens(3) res(2) have "\<forall>g\<in>set generators. \<exists>h\<in>set grp. equal h g = Inr True"
    by blast
  moreover from res(1) have "\<forall>i<length grp. \<forall>j<length grp. i \<noteq> j \<longrightarrow>
      equal (grp ! i) (grp ! j) = Inr False"
    using pairwise_unequal_nth by blast
  moreover note res(3) [unfolded closed_under_compose_def]
  ultimately show ?thesis
    by blast
qed


theorem make_group_closed_witness:
  "make_group [\<lparr>permutation = [1, 2, 3, 0], sector = 0, periodicity = 4\<rparr>]
     = Some (Inr [\<lparr>permutation = [1, 2, 3, 0], sector = 0, periodicity = 4\<rparr>,
                  \<lparr>permutation = [2, 3, 0, 1], sector = 0, periodicity = 2\<rparr>,
                  \<lparr>permutation = [3, 0, 1, 2], sector = 0, periodicity = 4\<rparr>,
                  \<lparr>permutation = [0, 1, 2, 3], sector = 0, periodicity = 1\<rparr>])
   \<and> (\<exists>g. compose \<lparr>permutation = [2, 3, 0, 1], sector = 0, periodicity = 2\<rparr>
                     \<lparr>permutation = [3, 0, 1, 2], sector = 0, periodicity = 4\<rparr> = Inr g
          \<and> (equal \<lparr>permutation = [1, 2, 3, 0], sector = 0, periodicity = 4\<rparr> g = Inr True
             \<or> equal \<lparr>permutation = [2, 3, 0, 1], sector = 0, periodicity = 2\<rparr> g = Inr True
             \<or> equal \<lparr>permutation = [3, 0, 1, 2], sector = 0, periodicity = 4\<rparr> g = Inr True
             \<or> equal \<lparr>permutation = [0, 1, 2, 3], sector = 0, periodicity = 1\<rparr> g = Inr True))"
proof -
  have run: "make_group [\<lparr>permutation = [1, 2, 3, 0], sector = 0, periodicity = 4\<rparr>]
     = Some (Inr [\<lparr>permutation = [1, 2, 3, 0], sector = 0, periodicity = 4\<rparr>,
                  \<lparr>permutation = [2, 3, 0, 1], sector = 0, periodicity = 2\<rparr>,
                  \<lparr>permutation = [3, 0, 1, 2], sector = 0, periodicity = 4\<rparr>,
                  \<lparr>permutation = [0, 1, 2, 3], sector = 0, periodicity = 1\<rparr>])"
    by code_simp
  from make_group_closed [OF run] show ?thesis
    by (simp add: run)
qed

section \<open>Properties of ls\_create\_trivial\_group\<close>

lemma is_permutation_iota:
  assumes "n \<le> 65536"
  shows "is_permutation (map of_nat [0..<n] :: u16 list)"
proof -
  have un: "unat (of_nat i :: u16) = i" if "i < n" for i
  proof -
    from that assms have "i < 2 ^ LENGTH(16)"
      by simp
    then show ?thesis
      by (rule unat_of_nat_small)
  qed
  have "inj_on (of_nat :: nat \<Rightarrow> u16) (set [0..<n])"
  proof (rule inj_onI)
    fix i j assume "i \<in> set [0..<n]" "j \<in> set [0..<n]" "(of_nat i :: u16) = of_nat j"
    then have "unat (of_nat i :: u16) = unat (of_nat j :: u16)" "i < n" "j < n"
      by simp_all
    then show "i = j"
      by (simp add: un)
  qed
  then have "distinct (map of_nat [0..<n] :: u16 list)"
    by (simp add: distinct_map)
  moreover have "list_all (\<lambda>x. unat x < length (map of_nat [0..<n] :: u16 list))
      (map of_nat [0..<n] :: u16 list)"
    by (simp add: list_all_iff un)
  ultimately show ?thesis
    by (simp add: is_permutation_def)
qed

lemma ucast_u32_u16_small:
  assumes "unat (n :: u32) < 65536"
  shows "unat (ucast n :: u16) = unat n"
  using assms by (simp add: unsigned_ucast_eq take_bit_nat_eq_self)

lemma sint_small: "unat (n :: u32) < 2147483648 \<Longrightarrow> sint n = uint n"
proof -
  assume *: "unat n < 2147483648"
  have "uint n = int (unat n)"
    by (rule uint_nat)
  with * have "uint n < 2147483648"
    by linarith
  then have "uint n < 2 ^ 31"
    by simp
  moreover have "- (2 ^ 31) \<le> uint n"
    by (rule order_trans [OF _ uint_ge_0]) simp
  ultimately have "signed_take_bit 31 (uint n) = uint n"
    by (rule signed_take_bit_int_eq_self [rotated])
  then show ?thesis
    by (simp add: sint_uint)
qed

text \<open>
  C8, as the code has it. \<open>ls_create_trivial_group\<close> returns \<open>LS_INVALID_NUMBER_SPINS\<close>
  exactly for \<open>spins = 0\<close>, and for \<open>spins\<close> from 1 to 512 it stores a group
  of size 1 whose number of spins is \<open>spins\<close>.
\<close>

theorem create_trivial_group_small:
  "(ls_create_trivial_group spins = Inl (Failure LS_INVALID_NUMBER_SPINS)
      \<longleftrightarrow> spins = 0)
   \<and> (0 < spins \<and> spins \<le> 512 \<longrightarrow>
        (\<exists>grp. ls_create_trivial_group spins = Inr grp
           \<and> ls_get_group_size grp = 1
           \<and> ls_group_get_number_spins grp = uint spins))"
proof (intro conjI impI)
  show "ls_create_trivial_group spins = Inl (Failure LS_INVALID_NUMBER_SPINS)
      \<longleftrightarrow> spins = 0"
    by (auto simp: ls_create_trivial_group_def from_spec_def split: sum.splits option.splits)
next
  assume range: "0 < spins \<and> spins \<le> 512"
  then have n: "unat spins \<le> 512" "spins \<noteq> 0"
    by (auto simp: word_le_nat_alt)
  then have cast: "unat (ucast spins :: u16) = unat spins"
    by (intro ucast_u32_u16_small) simp
  let ?p = "map of_nat [0..<unat spins] :: u16 list"
  have "is_permutation ?p"
    using n(1) by (intro is_permutation_iota) simp
  then have comp: "compile ?p = Some ?p"
    using n(1) by (simp add: compile_def)
  let ?s = "\<lparr>wide = 64 < unat spins, network = ?p, sym_sector = 0,
            sym_periodicity = 1, sym_eigenvalue = compute_eigenvalue 0 1\<rparr>"
  have spec: "make_identity_spec spins = \<lparr>permutation = ?p, sector = 0, periodicity = 1\<rparr>"
    by (simp only: make_identity_spec_def cast)
  have "from_spec \<lparr>permutation = ?p, sector = 0, periodicity = 1\<rparr> = Inr ?s"
    by (simp add: from_spec_def comp)
  then have run: "ls_create_trivial_group spins = Inr [?s]"
    unfolding ls_create_trivial_group_def spec using n(2) by simp
  have "unat spins < 2147483648"
    using n(1) by linarith
  then have "sint spins = uint spins"
    by (rule sint_small)
  then show "\<exists>grp. ls_create_trivial_group spins = Inr grp
           \<and> ls_get_group_size grp = 1
           \<and> ls_group_get_number_spins grp = uint spins"
    by (simp add: run ls_get_group_size_def ls_group_get_number_spins_def
        ls_symmetry_get_number_spins_def)
qed


theorem create_trivial_group_small_witness:
  "ls_create_trivial_group 4 =
     Inr [\<lparr>wide = False, network = [0, 1, 2, 3], sym_sector = 0, sym_periodicity = 1,
           sym_eigenvalue = 1\<rparr>]
   \<and> ls_get_group_size [\<lparr>wide = False, network = [0, 1, 2, 3], sym_sector = 0,
         sym_periodicity = 1, sym_eigenvalue = 1\<rparr>] = 1
   \<and> ls_group_get_number_spins [\<lparr>wide = False, network = [0, 1, 2, 3], sym_sector = 0,
         sym_periodicity = 1, sym_eigenvalue = 1\<rparr>] = 4
   \<and> ls_create_trivial_group 0 = Inl (Failure LS_INVALID_NUMBER_SPINS)"
proof -
  have perm: "is_permutation [0, 1, 2, 3]"
    by code_simp
  have iota: "[0..<4] = [0, 1, 2, 3]"
    by code_simp
  have run: "ls_create_trivial_group 4 =
     Inr [\<lparr>wide = False, network = [0, 1, 2, 3], sym_sector = 0, sym_periodicity = 1,
           sym_eigenvalue = 1\<rparr>]"
    by (simp add: ls_create_trivial_group_def make_identity_spec_def from_spec_def compile_def
        compute_eigenvalue_def iota perm)
  from create_trivial_group_small [of 4] create_trivial_group_small [of 0] show ?thesis
    by (simp add: run)
qed

text \<open>
  C8 as stated fails for large \<open>number_spins\<close>: the identity permutation is built with a
  \<open>uint16_t\<close> counter, so \<open>ls_create_trivial_group 65540\<close> returns the trivial group on 4
  sites; and a permutation of 513 sites is beyond what the network compiler takes, so
  \<open>from_spec\<close> stops at its check.
\<close>

theorem create_trivial_group_counterexample:
  "ls_create_trivial_group 65540 =
     Inr [\<lparr>wide = False, network = [0, 1, 2, 3], sym_sector = 0, sym_periodicity = 1,
           sym_eigenvalue = 1\<rparr>]
   \<and> ls_group_get_number_spins [\<lparr>wide = False, network = [0, 1, 2, 3], sym_sector = 0,
         sym_periodicity = 1, sym_eigenvalue = 1\<rparr>] = 4
   \<and> ls_create_trivial_group 513 = Inl Fatal"
proof -
  have perm: "is_permutation [0, 1, 2, 3]"
    by code_simp
  have iota: "[0..<4] = [0, 1, 2, 3]"
    by code_simp
  have "(ucast (65540 :: u32) :: u16) = 4"
    by simp
  then have "ls_create_trivial_group 65540 =
     Inr [\<lparr>wide = False, network = [0, 1, 2, 3], sym_sector = 0, sym_periodicity = 1,
           sym_eigenvalue = 1\<rparr>]"
    by (simp add: ls_create_trivial_group_def make_identity_spec_def from_spec_def compile_def
        compute_eigenvalue_def iota perm)
  moreover have "ls_group_get_number_spins [\<lparr>wide = False, network = [0, 1, 2, 3],
      sym_sector = 0, sym_periodicity = 1, sym_eigenvalue = 1\<rparr>] = 4"
    by (simp add: ls_group_get_number_spins_def ls_get_group_size_def
        ls_symmetry_get_number_spins_def)
  moreover have "ls_create_trivial_group 513 = Inl Fatal"
    by (simp add: ls_create_trivial_group_def make_identity_spec_def from_spec_def compile_def)
  ultimately show ?thesis
    by simp
qed


section \<open>Properties of ls\_group\_dump\_symmetry\_info\<close>

lemma dump_loop_eigenvalues:
  "snd (dump_loop write_masks n syms offset masks i eigenvalues) =
     (\<lambda>k. if i \<le> k \<and> k < i + length syms then ls_get_eigenvalue (syms ! (k - i))
          else eigenvalues k)"
proof (induction syms arbitrary: offset masks i eigenvalues)
  case Nil
  then show ?case by (auto simp: fun_eq_iff)
next
  case (Cons s syms)
  show ?case
    by (auto simp: Cons.IH fun_eq_iff nth_Cons' Suc_diff_Suc)
qed

text \<open>
  C9. On the empty group \<open>ls_group_dump_symmetry_info\<close> returns \<open>LS_SYSTEM_ERROR\<close> and the
  three buffers are returned as they were. On a non-empty group it returns \<open>LS_SUCCESS\<close>
  with the eigenvalue of the \<open>i\<close>-th element at index \<open>i\<close> of the array and the rest of the
  array as it was. A group here is one whose networks share one depth, as
  \<open>ls_group_get_network_depth\<close> checks; its size fits \<open>unsigned\<close> and the depth fits \<open>int\<close>.
\<close>

theorem dump_symmetry_info:
  "ls_group_dump_symmetry_info depth_of write_shifts write_masks [] masks shifts eigenvalues
     = Inr (LS_SYSTEM_ERROR, masks, shifts, eigenvalues)
   \<and> (grp \<noteq> [] \<and> length grp < 2 ^ 32
        \<and> list_all (\<lambda>s. depth_of s = depth_of (hd grp)) grp
        \<and> unat (depth_of (hd grp)) < 2147483648 \<longrightarrow>
       (\<exists>masks' shifts' eigenvalues'.
          ls_group_dump_symmetry_info depth_of write_shifts write_masks grp masks shifts
            eigenvalues = Inr (LS_SUCCESS, masks', shifts', eigenvalues')
          \<and> (\<forall>i<length grp. eigenvalues' i = sym_eigenvalue (grp ! i))
          \<and> (\<forall>i\<ge>length grp. eigenvalues' i = eigenvalues i)))"
proof (intro conjI impI)
  show "ls_group_dump_symmetry_info depth_of write_shifts write_masks [] masks shifts eigenvalues
     = Inr (LS_SYSTEM_ERROR, masks, shifts, eigenvalues)"
    by (simp add: ls_group_dump_symmetry_info_def ls_group_get_network_depth_def
        ls_get_group_size_def)
next
  assume hyp: "grp \<noteq> [] \<and> length grp < 2 ^ 32
        \<and> list_all (\<lambda>s. depth_of s = depth_of (hd grp)) grp
        \<and> unat (depth_of (hd grp)) < 2147483648"
  then have "unat (of_nat (length grp) :: u32) = length grp"
    by (intro unat_of_nat_small) simp
  with hyp have size: "ls_get_group_size grp \<noteq> 0"
    by (auto simp: ls_get_group_size_def)
  from hyp have tl: "list_all (\<lambda>s. depth_of s = depth_of (hd grp)) (tl grp)"
    by (cases grp) simp_all
  from hyp have "sint (depth_of (hd grp)) = uint (depth_of (hd grp))"
    by (intro sint_small) simp
  moreover have "0 \<le> uint (depth_of (hd grp))"
    by simp
  ultimately have nonneg: "0 \<le> sint (depth_of (hd grp))" "sint (depth_of (hd grp)) \<noteq> - 1"
    by linarith+
  have depth: "ls_group_get_network_depth depth_of grp = Inr (sint (depth_of (hd grp)))"
    using size tl by (simp add: ls_group_get_network_depth_def Let_def)
  obtain masks' eigenvalues' where loop:
    "dump_loop write_masks (ls_get_group_size grp) grp 0 masks 0 eigenvalues
       = (masks', eigenvalues')"
    by (cases "dump_loop write_masks (ls_get_group_size grp) grp 0 masks 0 eigenvalues")
  have run: "ls_group_dump_symmetry_info depth_of write_shifts write_masks grp masks shifts
      eigenvalues = Inr (LS_SUCCESS, masks', write_shifts (hd grp) shifts, eigenvalues')"
    using nonneg by (simp add: ls_group_dump_symmetry_info_def depth loop Let_def)
  have "eigenvalues' k = (if k < length grp then ls_get_eigenvalue (grp ! k)
      else eigenvalues k)" for k
    using dump_loop_eigenvalues [of write_masks "ls_get_group_size grp" grp 0 masks 0 eigenvalues,
        THEN fun_cong, of k]
    by (simp add: loop)
  then have "(\<forall>i<length grp. eigenvalues' i = sym_eigenvalue (grp ! i))
          \<and> (\<forall>i\<ge>length grp. eigenvalues' i = eigenvalues i)"
    by (simp add: ls_get_eigenvalue_def)
  with run show "\<exists>masks' shifts' eigenvalues'.
          ls_group_dump_symmetry_info depth_of write_shifts write_masks grp masks shifts
            eigenvalues = Inr (LS_SUCCESS, masks', shifts', eigenvalues')
          \<and> (\<forall>i<length grp. eigenvalues' i = sym_eigenvalue (grp ! i))
          \<and> (\<forall>i\<ge>length grp. eigenvalues' i = eigenvalues i)"
    by blast
qed


theorem dump_symmetry_info_witness:
  "\<exists>masks' shifts' eigenvalues'.
     ls_group_dump_symmetry_info (\<lambda>s. 3) (\<lambda>s (x :: nat list). [1, 2, 1])
         (\<lambda>s offset n (m :: nat). m + 1)
         [\<lparr>wide = False, network = [0, 1], sym_sector = 0, sym_periodicity = 1,
           sym_eigenvalue = 1\<rparr>,
          \<lparr>wide = False, network = [1, 0], sym_sector = 1, sym_periodicity = 2,
           sym_eigenvalue = - 1\<rparr>]
         0 [] (\<lambda>i. 0)
       = Inr (LS_SUCCESS, masks', shifts', eigenvalues')
     \<and> eigenvalues' 0 = 1 \<and> eigenvalues' 1 = - 1 \<and> eigenvalues' 2 = 0"
  using dump_symmetry_info [of "\<lambda>s. 3" "\<lambda>s (x :: nat list). [1, 2, 1]"
      "\<lambda>s offset n (m :: nat). m + 1" 0 "[]" "\<lambda>i. 0"
      "[\<lparr>wide = False, network = [0, 1], sym_sector = 0, sym_periodicity = 1,
           sym_eigenvalue = 1\<rparr>,
          \<lparr>wide = False, network = [1, 0], sym_sector = 1, sym_periodicity = 2,
           sym_eigenvalue = - 1\<rparr>]"]
  by (auto simp: nth_Cons')

section \<open>Properties of get\_state\_info\<close>

lemma lane_state_update:
  "lane_state (update acc x re im) i =
     lane_step (acc_original acc i) (x i, Complex (re i) (im i)) (lane_state acc i)"
  by (simp add: lane_state_def update_def lane_step_def select_def if_add_def Let_def)

lemma original_update [simp]: "acc_original (update acc x re im) = acc_original acc"
  by (simp add: update_def Let_def)

lemma lane_state_update_first_few:
  assumes "update_first_few acc x re im count = Inr acc'"
  shows "lane_state acc' i =
     (if i < count
      then lane_step (acc_original acc i) (x i, Complex (re i) (im i)) (lane_state acc i)
      else lane_state acc i)"
    and "acc_original acc' = acc_original acc"
    and "count < 8"
  using assms
  by (auto simp: lane_state_def update_first_few_def lane_step_def select_def if_add_def Let_def
      split: if_splits)

lemma update_first_few_Inr:
  "count < 8 \<Longrightarrow> \<exists>acc'. update_first_few acc x re im count = Inr acc'"
  by (simp add: update_first_few_def Let_def)

lemma scaled_eigenvalue:
  "Complex ((if s \<noteq> 1 then (\<lambda>i. re i * real_of_int s) else re) i)
           ((if s \<noteq> 1 then (\<lambda>i. im i * real_of_int s) else im) i)
     = of_real (real_of_int s) * Complex (re i) (im i)"
  by (simp add: complex_eq_iff)

lemma lane_state_batch_step:
  assumes "acc_original acc = (\<lambda>i. bits)"
  shows "lane_state (batch_step h (\<lambda>i. m) (\<lambda>i. real_of_int (spin_inversion h)) acc s) i =
     fold (lane_step bits) (orbit_pair h m bits (batch_lane s i)) (lane_state acc i)"
    and "acc_original (batch_step h (\<lambda>i. m) (\<lambda>i. real_of_int (spin_inversion h)) acc s)
           = (\<lambda>i. bits)"
  using assms scaled_eigenvalue [of "spin_inversion h" "eigenvalues_real s" i "eigenvalues_imag s"]
  by (simp_all add: batch_step_def Let_def lane_state_update orbit_pair_def batch_lane_def
      benes_forward_def)

lemma lane_state_batches:
  assumes "acc_original acc = (\<lambda>i. bits)"
  shows "lane_state (fold (\<lambda>s acc. batch_step h (\<lambda>i. m) (\<lambda>i. real_of_int (spin_inversion h))
                             acc s) ss acc) i =
     fold (lane_step bits) (concat (map (\<lambda>s. orbit_pair h m bits (batch_lane s i)) ss))
       (lane_state acc i)"
    and "acc_original (fold (\<lambda>s acc. batch_step h (\<lambda>i. m)
                                 (\<lambda>i. real_of_int (spin_inversion h)) acc s) ss acc)
           = (\<lambda>i. bits)"
  using assms
proof (induction ss arbitrary: acc)
  case Nil
  {
    case 1 then show ?case by simp
  next
    case 2 then show ?case by simp
  }
next
  case (Cons s ss)
  {
    case 1
    note step = lane_state_batch_step [OF 1, of h m s]
    show ?case
      using Cons.IH(1) [OF step(2)] by (simp add: step(1))
  next
    case 2
    note step = lane_state_batch_step [OF 2, of h m s]
    show ?case
      using Cons.IH(2) [OF step(2)] by simp
  }
qed

lemma lane_state_other_step:
  assumes "acc_original acc = (\<lambda>i. bits)"
    and "other_step h (\<lambda>i. m) (\<lambda>i. real_of_int (spin_inversion h)) count acc s = Inr acc'"
  shows "lane_state acc' i =
     (if i < count
      then fold (lane_step bits) (orbit_pair h m bits (batch_lane s i)) (lane_state acc i)
      else lane_state acc i)"
    and "acc_original acc' = (\<lambda>i. bits)"
    and "count < 8"
proof -
  let ?x = "benes_forward (batch_network s) (acc_original acc)"
  from assms(2) obtain acc1 where
    first: "update_first_few acc ?x (eigenvalues_real s) (eigenvalues_imag s) count = Inr acc1"
    by (auto simp: other_step_def Let_def split: sum.splits)
  note f = lane_state_update_first_few [OF first]
  show "count < 8"
    by (rule f(3))
  show "lane_state acc' i =
     (if i < count
      then fold (lane_step bits) (orbit_pair h m bits (batch_lane s i)) (lane_state acc i)
      else lane_state acc i)"
  proof (cases "spin_inversion h = 0")
    case True
    with assms(2) first have "acc' = acc1"
      by (simp add: other_step_def Let_def)
    with True f(1) [of i] assms(1) show ?thesis
      by (simp add: orbit_pair_def batch_lane_def benes_forward_def)
  next
    case False
    with assms(2) first have second: "update_first_few acc1 (\<lambda>i. ?x i XOR m)
        (if spin_inversion h \<noteq> 1 then (\<lambda>i. eigenvalues_real s i * real_of_int (spin_inversion h))
         else eigenvalues_real s)
        (if spin_inversion h \<noteq> 1 then (\<lambda>i. eigenvalues_imag s i * real_of_int (spin_inversion h))
         else eigenvalues_imag s) count = Inr acc'"
      by (simp add: other_step_def Let_def)
    note g = lane_state_update_first_few [OF second]
    from False f(1) [of i] g(1) [of i] f(2) assms(1)
      scaled_eigenvalue [of "spin_inversion h" "eigenvalues_real s" i "eigenvalues_imag s"]
    show ?thesis
      by (simp add: orbit_pair_def batch_lane_def benes_forward_def)
  qed
  show "acc_original acc' = (\<lambda>i. bits)"
  proof (cases "spin_inversion h = 0")
    case True
    with assms(2) first have "acc' = acc1"
      by (simp add: other_step_def Let_def)
    with f(2) assms(1) show ?thesis
      by simp
  next
    case False
    with assms(2) first have second: "update_first_few acc1 (\<lambda>i. ?x i XOR m)
        (if spin_inversion h \<noteq> 1 then (\<lambda>i. eigenvalues_real s i * real_of_int (spin_inversion h))
         else eigenvalues_real s)
        (if spin_inversion h \<noteq> 1 then (\<lambda>i. eigenvalues_imag s i * real_of_int (spin_inversion h))
         else eigenvalues_imag s) count = Inr acc'"
      by (simp add: other_step_def Let_def)
    from lane_state_update_first_few(2) [OF second] f(2) assms(1) show ?thesis
      by simp
  qed
qed

lemma other_step_Inr:
  "count < 8 \<Longrightarrow> \<exists>acc'. other_step h fm fc count acc s = Inr acc'"
  by (simp add: other_step_def update_first_few_def Let_def)

lemma other_step_Inl:
  "other_step h fm fc count acc s = Inl e \<Longrightarrow> e = Fatal \<and> \<not> count < 8"
  by (auto simp: other_step_def update_first_few_def Let_def split: if_splits)

lemma get_state_info_final_acc:
  assumes "has_symmetries h" "get_flip_mask_64 (number_spins h) = Some m"
  shows "get_state_info h body bits =
     (case final_acc h m body bits of
        Inl e \<Rightarrow> Inl e
      | Inr acc \<Rightarrow>
          (case reduce acc of
             (representative, character, n) \<Rightarrow>
               (case finish_norm n (small_group_size h body) of
                  Inl e \<Rightarrow> Inl e
                | Inr nrm \<Rightarrow> Inr (representative, character, nrm))))"
  using assms by (simp add: get_state_info_def final_acc_def Let_def)

lemma lane_state_final_acc:
  assumes "final_acc h m body bits = Inr acc"
  shows "lane_state acc i = fold (lane_step bits) (lane_orbit h m body bits i) (bits, 1, 0)"
proof -
  let ?acc0 = "fold (\<lambda>symmetry acc. batch_step h (\<lambda>i. m)
                        (\<lambda>i. real_of_int (spin_inversion h)) acc symmetry)
                  (batched_symmetries body) (batch_acc bits)"
  have init: "acc_original (batch_acc bits) = (\<lambda>i. bits)"
    "lane_state (batch_acc bits) i = (bits, 1, 0)"
    by (simp_all add: batch_acc_def lane_state_def one_complex.code)
  note b = lane_state_batches [OF init(1), of h m "batched_symmetries body"]
  show ?thesis
  proof (cases "other_symmetries body")
    case None
    with assms have "acc = ?acc0"
      by (simp add: final_acc_def Let_def)
    with None b(1) [of i] init(2) show ?thesis
      by (simp add: lane_orbit_def)
  next
    case (Some s)
    with assms have "other_step h (\<lambda>i. m) (\<lambda>i. real_of_int (spin_inversion h))
        (number_other_symmetries body) ?acc0 s = Inr acc"
      by (simp add: final_acc_def Let_def)
    from lane_state_other_step(1) [OF b(2) this, of i] Some b(1) [of i] init(2) show ?thesis
      by (simp add: lane_orbit_def)
  qed
qed

subsection \<open>What a running minimum computes\<close>

lemma lane_step_triple:
  "lane_step bits p (r, e, n) =
     (if fst p < r then fst p else r, if fst p < r then snd p else e,
      if fst p = bits then n + Re (snd p) else n)"
  by (simp add: lane_step_def)

lemma fold_lane_step_n:
  "snd (snd (fold (lane_step bits) xs (r, e, n))) = n + stabilizer_sum xs bits"
  by (induction xs arbitrary: r e n) (simp_all add: lane_step_triple stabilizer_sum_def)

lemma fold_lane_step_le_start:
  "fst (fold (lane_step bits) xs (r, e, n)) \<le> r"
proof (induction xs arbitrary: r e n)
  case Nil
  then show ?case by simp
next
  case (Cons x xs)
  obtain r' e' n' where step: "lane_step bits x (r, e, n) = (r', e', n')" and "r' \<le> r"
    by (cases "fst x < r") (auto simp: lane_step_triple)
  with Cons.IH [of r' e' n'] show ?case
    by simp
qed

lemma fold_lane_step_le_element:
  "p \<in> set xs \<Longrightarrow> fst (fold (lane_step bits) xs (r, e, n)) \<le> fst p"
proof (induction xs arbitrary: r e n)
  case Nil
  then show ?case by simp
next
  case (Cons x xs)
  obtain r' e' n' where step: "lane_step bits x (r, e, n) = (r', e', n')" and "r' \<le> fst x"
    by (cases "fst x < r") (auto simp: lane_step_triple)
  show ?case
  proof (cases "p = x")
    case True
    with fold_lane_step_le_start [of bits xs r' e' n'] step \<open>r' \<le> fst x\<close> show ?thesis
      by simp
  next
    case False
    with Cons.prems have "p \<in> set xs"
      by simp
    from Cons.IH [OF this, of r' e' n'] step show ?thesis
      by simp
  qed
qed

lemma fold_lane_step_cases:
  obtains "fold (lane_step bits) xs (r, e, n) = (r, e, n + stabilizer_sum xs bits)"
      "\<forall>p\<in>set xs. r \<le> fst p"
  | r' e' where "fold (lane_step bits) xs (r, e, n) = (r', e', n + stabilizer_sum xs bits)"
      "r' < r" "(r', e') \<in> set xs"
proof -
  have "(\<exists>n'. fold (lane_step bits) xs (r, e, n) = (r, e, n') \<and> (\<forall>p\<in>set xs. r \<le> fst p))
      \<or> (\<exists>r' e' n'. fold (lane_step bits) xs (r, e, n) = (r', e', n')
            \<and> r' < r \<and> (r', e') \<in> set xs)"
  proof (induction xs arbitrary: r e n)
    case Nil
    then show ?case by simp
  next
    case (Cons x xs)
    let ?n = "if fst x = bits then n + Re (snd x) else n"
    show ?case
    proof (cases "fst x < r")
      case True
      then have step: "lane_step bits x (r, e, n) = (fst x, snd x, ?n)"
        by (simp add: lane_step_triple)
      from Cons.IH [of "fst x" "snd x" ?n] True show ?thesis
        unfolding fold_simps step by (auto intro: order_less_trans)
    next
      case False
      then have step: "lane_step bits x (r, e, n) = (r, e, ?n)"
        by (simp add: lane_step_triple)
      from Cons.IH [of r e ?n] False show ?thesis
        unfolding fold_simps step by auto
    qed
  qed
  then show ?thesis
    using that fold_lane_step_n [of bits xs r e n] by (elim disjE exE conjE) auto
qed

lemma stabilizer_sum_append [simp]:
  "stabilizer_sum (xs @ ys) bits = stabilizer_sum xs bits + stabilizer_sum ys bits"
  by (simp add: stabilizer_sum_def)

lemma stabilizer_sum_Nil [simp]: "stabilizer_sum [] bits = 0"
  by (simp add: stabilizer_sum_def)


subsection \<open>The tree reduction\<close>

lemma pick2_le: "fst (pick2 p q) \<le> fst p" "fst (pick2 p q) \<le> fst q"
  by (auto simp: pick2_def)

lemma pick2_in: "pick2 p q \<in> {p, q}"
  by (simp add: pick2_def)

lemma pick2_choice: "pick2 p q = p \<or> pick2 p q = q"
  by (simp add: pick2_def)

lemma reduce_pick2:
  "reduce acc =
     (case pick2 (pick2 (pick2 (lane_triple acc 0) (lane_triple acc 4))
                        (pick2 (lane_triple acc 2) (lane_triple acc 6)))
                 (pick2 (pick2 (lane_triple acc 1) (lane_triple acc 5))
                        (pick2 (lane_triple acc 3) (lane_triple acc 7))) of
        (r, e_re, e_im) \<Rightarrow> (r, Complex e_re e_im, horizontal_add (acc_n acc)))"
proof -
  define P where "P = (\<lambda>i. pick2 (lane_triple acc i) (lane_triple acc (i + 4)))"
  define Q where "Q = (\<lambda>i. pick2 (P i) (P (i + 2)))"
  have l1: "select (\<lambda>i. acc_r acc i < acc_r acc (i + 4)) (acc_r acc) (\<lambda>i. acc_r acc (i + 4))
        = (\<lambda>i. fst (P i))"
      "select (\<lambda>i. acc_r acc i < acc_r acc (i + 4)) (acc_e_re acc) (\<lambda>i. acc_e_re acc (i + 4))
        = (\<lambda>i. fst (snd (P i)))"
      "select (\<lambda>i. acc_r acc i < acc_r acc (i + 4)) (acc_e_im acc) (\<lambda>i. acc_e_im acc (i + 4))
        = (\<lambda>i. snd (snd (P i)))"
    by (simp_all add: fun_eq_iff select_def P_def lane_triple_def pick2_def)
  have l2: "select (\<lambda>i. fst (P i) < fst (P (i + 2))) (\<lambda>i. fst (P i)) (\<lambda>i. fst (P (i + 2)))
        = (\<lambda>i. fst (Q i))"
      "select (\<lambda>i. fst (P i) < fst (P (i + 2))) (\<lambda>i. fst (snd (P i)))
          (\<lambda>i. fst (snd (P (i + 2)))) = (\<lambda>i. fst (snd (Q i)))"
      "select (\<lambda>i. fst (P i) < fst (P (i + 2))) (\<lambda>i. snd (snd (P i)))
          (\<lambda>i. snd (snd (P (i + 2)))) = (\<lambda>i. snd (snd (Q i)))"
    by (simp_all add: fun_eq_iff select_def Q_def pick2_def)
  have "reduce acc =
      (if fst (Q 0) < fst (Q 1)
       then (fst (Q 0), Complex (fst (snd (Q 0))) (snd (snd (Q 0))), horizontal_add (acc_n acc))
       else (fst (Q 1), Complex (fst (snd (Q 1))) (snd (snd (Q 1))), horizontal_add (acc_n acc)))"
    by (simp only: reduce_def Let_def l1 l2 reduce_norm_only_def)
  also have "\<dots> = (case pick2 (Q 0) (Q 1) of
        (r, e_re, e_im) \<Rightarrow> (r, Complex e_re e_im, horizontal_add (acc_n acc)))"
    by (simp add: pick2_def case_prod_beta)
  finally have "reduce acc = (case pick2 (Q 0) (Q 1) of
        (r, e_re, e_im) \<Rightarrow> (r, Complex e_re e_im, horizontal_add (acc_n acc)))" .
  moreover have "Q 0 = pick2 (pick2 (lane_triple acc 0) (lane_triple acc 4))
                        (pick2 (lane_triple acc 2) (lane_triple acc 6))"
    "Q 1 = pick2 (pick2 (lane_triple acc 1) (lane_triple acc 5))
                        (pick2 (lane_triple acc 3) (lane_triple acc 7))"
    by (simp_all add: Q_def P_def numeral_2_eq_2 numeral_3_eq_3)
  ultimately show ?thesis
    by (simp only:)
qed

lemma lanes_below_8:
  "i < 8 \<longleftrightarrow> i = 0 \<or> i = 1 \<or> i = 2 \<or> i = 3 \<or> i = 4 \<or> i = 5 \<or> i = 6 \<or> i = (7::nat)"
  by arith

lemma pick2_mem: "p \<in> A \<Longrightarrow> q \<in> B \<Longrightarrow> pick2 p q \<in> A \<union> B"
  by (simp add: pick2_def)

lemma lane_state_triple:
  "lane_state acc i =
     (fst (lane_triple acc i), Complex (fst (snd (lane_triple acc i))) (snd (snd (lane_triple acc i))),
      acc_n acc i)"
  by (simp add: lane_state_def lane_triple_def)

lemma reduce_lane:
  obtains k where "k < 8"
    and "reduce acc = (fst (lane_state acc k), fst (snd (lane_state acc k)),
                       horizontal_add (acc_n acc))"
    and "\<forall>i<8. fst (lane_state acc k) \<le> fst (lane_state acc i)"
proof -
  let ?L = "lane_triple acc"
  define a b c d where "a = pick2 (?L 0) (?L 4)" and "b = pick2 (?L 2) (?L 6)"
    and "c = pick2 (?L 1) (?L 5)" and "d = pick2 (?L 3) (?L 7)"
  define ab cd where "ab = pick2 a b" and "cd = pick2 c d"
  define t where "t = pick2 ab cd"
  have le_ab: "fst t \<le> fst ab" and le_cd: "fst t \<le> fst cd"
    unfolding t_def by (rule pick2_le)+
  have le_a: "fst t \<le> fst a"
    using le_ab pick2_le(1) [of a b] unfolding ab_def by (rule order_trans)
  have le_b: "fst t \<le> fst b"
    using le_ab pick2_le(2) [of a b] unfolding ab_def by (rule order_trans)
  have le_c: "fst t \<le> fst c"
    using le_cd pick2_le(1) [of c d] unfolding cd_def by (rule order_trans)
  have le_d: "fst t \<le> fst d"
    using le_cd pick2_le(2) [of c d] unfolding cd_def by (rule order_trans)
  have l0: "fst t \<le> fst (?L 0)"
    using le_a pick2_le(1) [of "?L 0" "?L 4"] unfolding a_def by (rule order_trans)
  have l4: "fst t \<le> fst (?L 4)"
    using le_a pick2_le(2) [of "?L 0" "?L 4"] unfolding a_def by (rule order_trans)
  have l2: "fst t \<le> fst (?L 2)"
    using le_b pick2_le(1) [of "?L 2" "?L 6"] unfolding b_def by (rule order_trans)
  have l6: "fst t \<le> fst (?L 6)"
    using le_b pick2_le(2) [of "?L 2" "?L 6"] unfolding b_def by (rule order_trans)
  have l1: "fst t \<le> fst (?L 1)"
    using le_c pick2_le(1) [of "?L 1" "?L 5"] unfolding c_def by (rule order_trans)
  have l5: "fst t \<le> fst (?L 5)"
    using le_c pick2_le(2) [of "?L 1" "?L 5"] unfolding c_def by (rule order_trans)
  have l3: "fst t \<le> fst (?L 3)"
    using le_d pick2_le(1) [of "?L 3" "?L 7"] unfolding d_def by (rule order_trans)
  have l7: "fst t \<le> fst (?L 7)"
    using le_d pick2_le(2) [of "?L 3" "?L 7"] unfolding d_def by (rule order_trans)
  have le: "fst t \<le> fst (?L i)" if "i < 8" for i
    using that l0 l1 l2 l3 l4 l5 l6 l7 unfolding lanes_below_8 by (elim disjE) simp_all
  have "t \<in> (({?L 0} \<union> {?L 4}) \<union> ({?L 2} \<union> {?L 6}))
              \<union> (({?L 1} \<union> {?L 5}) \<union> ({?L 3} \<union> {?L 7}))"
    unfolding t_def ab_def cd_def a_def b_def c_def d_def by (intro pick2_mem) simp_all
  then have "t = ?L 0 \<or> t = ?L 1 \<or> t = ?L 2 \<or> t = ?L 3 \<or> t = ?L 4 \<or> t = ?L 5
      \<or> t = ?L 6 \<or> t = ?L 7"
    by blast
  then have "\<exists>k. (k = 0 \<or> k = 1 \<or> k = 2 \<or> k = 3 \<or> k = 4 \<or> k = 5 \<or> k = 6 \<or> k = (7::nat))
      \<and> t = ?L k"
    by blast
  then obtain k where k: "k < 8" "t = ?L k"
    unfolding lanes_below_8 [symmetric] by blast
  have red: "reduce acc = (fst t, Complex (fst (snd t)) (snd (snd t)), horizontal_add (acc_n acc))"
    unfolding reduce_pick2 t_def ab_def cd_def a_def b_def c_def d_def
    by (simp add: case_prod_beta)
  show ?thesis
  proof (rule that [OF k(1)])
    show "reduce acc = (fst (lane_state acc k), fst (snd (lane_state acc k)),
        horizontal_add (acc_n acc))"
      using red k(2) by (simp add: lane_state_triple)
    show "\<forall>i<8. fst (lane_state acc k) \<le> fst (lane_state acc i)"
      using le k(2) by (simp add: lane_state_triple)
  qed
qed

subsection \<open>The scalar loop as a running minimum\<close>

lemma scalar_step_lane_step:
  assumes "r \<le> bits"
  shows "scalar_step h bits m s (r, n, e) =
     (case fold (lane_step bits) (orbit_pair h m bits (big_network s, eigenvalue s)) (r, e, n) of
        (r', e', n') \<Rightarrow> (r', n', e'))"
proof -
  let ?x = "big_network s bits"
  have first: "(if ?x < r then (?x, n, eigenvalue s)
                else if ?x = bits then (r, n + Re (eigenvalue s), e) else (r, n, e))
      = (case lane_step bits (?x, eigenvalue s) (r, e, n) of (r', e', n') \<Rightarrow> (r', n', e'))"
    using assms by (auto simp: lane_step_triple)
  show ?thesis
  proof (cases "spin_inversion h = 0")
    case True
    with first show ?thesis
      by (simp add: scalar_step_def orbit_pair_def Let_def)
  next
    case False
    obtain r1 e1 n1 where st: "lane_step bits (?x, eigenvalue s) (r, e, n) = (r1, e1, n1)"
      by (cases "lane_step bits (?x, eigenvalue s) (r, e, n)")
    then have "r1 \<le> r"
      by (auto simp: lane_step_triple split: if_splits)
    with assms have r1: "r1 \<le> bits"
      by simp
    let ?y = "?x XOR m" and ?c = "of_real (real_of_int (spin_inversion h)) * eigenvalue s"
    have second: "(if ?y < r1 then (?y, n1, ?c)
                else if ?y = bits
                  then (r1, n1 + real_of_int (spin_inversion h) * Re (eigenvalue s), e1)
                else (r1, n1, e1))
      = (case lane_step bits (?y, ?c) (r1, e1, n1) of (r', e', n') \<Rightarrow> (r', n', e'))"
      using r1 by (auto simp: lane_step_triple)
    from False first second st show ?thesis
      by (simp add: scalar_step_def orbit_pair_def Let_def)
  qed
qed

lemma fold_scalar_step:
  assumes "r \<le> bits"
  shows "fold (scalar_step h bits m) syms (r, n, e) =
     (case fold (lane_step bits)
             (extended_orbit h m (map (\<lambda>s. (big_network s, eigenvalue s)) syms) bits) (r, e, n) of
        (r', e', n') \<Rightarrow> (r', n', e'))"
  using assms
proof (induction syms arbitrary: r n e)
  case Nil
  then show ?case by (simp add: extended_orbit_def)
next
  case (Cons s syms)
  obtain r1 e1 n1 where st:
    "fold (lane_step bits) (orbit_pair h m bits (big_network s, eigenvalue s)) (r, e, n)
       = (r1, e1, n1)"
    by (cases "fold (lane_step bits) (orbit_pair h m bits (big_network s, eigenvalue s)) (r, e, n)")
  have "r1 \<le> r"
    using fold_lane_step_le_start
      [of bits "orbit_pair h m bits (big_network s, eigenvalue s)" r e n] st by simp
  with Cons.prems have "r1 \<le> bits"
    by simp
  from Cons.IH [OF this, of n1 e1] scalar_step_lane_step [OF Cons.prems, of h m s n e] st
  show ?case
    by (simp add: extended_orbit_def)
qed

lemma scalar_state_info_fold:
  assumes "has_symmetries h"
  shows "scalar_state_info h (Some m) body bits =
     (case fold (lane_step bits) (extended_orbit h m (big_group body) bits) (bits, 1, 0) of
        (r, e, n) \<Rightarrow>
          (case finish_norm n (big_group_size h body) of
             Inl f \<Rightarrow> Inl f
           | Inr nrm \<Rightarrow> Inr (r, e, nrm)))"
  using assms fold_scalar_step [of bits bits h m "symmetries body" 0 1]
  by (simp add: scalar_state_info_def big_group_def split: prod.splits)

subsection \<open>Lanes and the group in sequence order\<close>

lemma set_extended_orbit:
  "set (extended_orbit h m grp bits) = (\<Union>g\<in>set grp. set (orbit_pair h m bits g))"
  by (simp add: extended_orbit_def)

lemma set_small_group:
  "set (small_group body) =
     (\<Union>s\<in>set (batched_symmetries body). batch_lane s ` {..<8})
       \<union> (case other_symmetries body of
            None \<Rightarrow> {}
          | Some s \<Rightarrow> batch_lane s ` {..<number_other_symmetries body})"
  by (auto simp: small_group_def atLeast_upt split: option.splits)

lemma set_lane_orbit:
  "set (lane_orbit h m body bits i) =
     (\<Union>s\<in>set (batched_symmetries body). set (orbit_pair h m bits (batch_lane s i)))
       \<union> (case other_symmetries body of
            None \<Rightarrow> {}
          | Some s \<Rightarrow> if i < number_other_symmetries body
                      then set (orbit_pair h m bits (batch_lane s i)) else {})"
  by (auto simp: lane_orbit_def split: option.splits)

lemma lane_orbit_subset:
  assumes "i < 8"
  shows "set (lane_orbit h m body bits i) \<subseteq> set (extended_orbit h m (small_group body) bits)"
  using assms unfolding set_lane_orbit set_extended_orbit set_small_group
  by (auto split: option.splits if_splits)


subsection \<open>The representative is not above the pattern\<close>

lemma get_state_info_cases:
  assumes "get_state_info h body bits = Inr (rep, chr, nrm)"
  obtains "\<not> has_symmetries h" "rep = bits" "chr = 1" "nrm = Finite 1"
  | m acc k where "has_symmetries h" "get_flip_mask_64 (number_spins h) = Some m"
      "final_acc h m body bits = Inr acc" "k < 8"
      "rep = fst (lane_state acc k)" "chr = fst (snd (lane_state acc k))"
      "\<forall>i<8. fst (lane_state acc k) \<le> fst (lane_state acc i)"
      "finish_norm (horizontal_add (acc_n acc)) (small_group_size h body) = Inr nrm"
proof (cases "has_symmetries h")
  case False
  with assms that(1) show ?thesis
    by (simp add: get_state_info_def one_complex.code)
next
  case True
  with assms obtain m where m: "get_flip_mask_64 (number_spins h) = Some m"
    by (auto simp: get_state_info_def split: option.splits)
  from assms obtain acc where acc: "final_acc h m body bits = Inr acc"
    unfolding get_state_info_final_acc [OF True m] by (auto split: sum.splits)
  obtain k where k: "k < 8"
    "reduce acc = (fst (lane_state acc k), fst (snd (lane_state acc k)),
                   horizontal_add (acc_n acc))"
    "\<forall>i<8. fst (lane_state acc k) \<le> fst (lane_state acc i)"
    by (rule reduce_lane)
  from assms have r: "rep = fst (lane_state acc k)" "chr = fst (snd (lane_state acc k))"
    "finish_norm (horizontal_add (acc_n acc)) (small_group_size h body) = Inr nrm"
    unfolding get_state_info_final_acc [OF True m] by (auto simp: acc k(2) split: sum.splits)
  show ?thesis
    by (rule that(2) [OF True m acc k(1) r(1) r(2) k(3) r(3)])
qed

text \<open>
  C10, as the code has it. The representative that \<open>get_state_info\<close> returns is at most the
  pattern, on 64 bits and on 512 bits, and it is the pattern itself when no element of the
  extended orbit, which holds the images of the pattern under the symmetries of the group
  and, with spin inversion, their flipped patterns, is below the pattern, whatever the group
  holds.
\<close>

theorem representative_le_bits:
  "(get_state_info h body bits = Inr (rep, chr, nrm) \<longrightarrow>
      rep \<le> bits \<and> ((\<forall>p\<in>set (small_orbit h body bits). bits \<le> fst p) \<longrightarrow> rep = bits))
   \<and> (get_state_info_big h body' bits' = Inr (rep', chr', nrm') \<longrightarrow>
      rep' \<le> bits'
      \<and> ((\<forall>p\<in>set (big_orbit h body' bits'). bits' \<le> fst p) \<longrightarrow> rep' = bits'))"
proof (intro conjI impI)
  assume run: "get_state_info h body bits = Inr (rep, chr, nrm)"
  then show "rep \<le> bits"
  proof (cases rule: get_state_info_cases)
    case 1
    then show ?thesis by simp
  next
    case (2 m acc k)
    from fold_lane_step_le_start [of bits "lane_orbit h m body bits k" bits 1 0]
      lane_state_final_acc [OF 2(3), of k] 2(5)
    show ?thesis by simp
  qed
  assume none: "\<forall>p\<in>set (small_orbit h body bits). bits \<le> fst p"
  from run show "rep = bits"
  proof (cases rule: get_state_info_cases)
    case 1
    then show ?thesis by simp
  next
    case (2 m acc k)
    from none 2(2) lane_orbit_subset [OF 2(4), of h m body bits]
    have ge: "\<forall>p\<in>set (lane_orbit h m body bits k). bits \<le> fst p"
      by (auto simp: small_orbit_def)
    show ?thesis
    proof (rule fold_lane_step_cases [of bits "lane_orbit h m body bits k" bits 1 0])
      assume "fold (lane_step bits) (lane_orbit h m body bits k) (bits, 1, 0)
          = (bits, 1, 0 + stabilizer_sum (lane_orbit h m body bits k) bits)"
      with lane_state_final_acc [OF 2(3), of k] 2(5) show ?thesis
        by simp
    next
      fix r' e' assume "r' < bits" "(r', e') \<in> set (lane_orbit h m body bits k)"
      with ge show ?thesis
        by fastforce
    qed
  qed
next
  assume run: "get_state_info_big h body' bits' = Inr (rep', chr', nrm')"
  show "rep' \<le> bits'"
  proof (cases "has_symmetries h")
    case False
    with run show ?thesis
      by (simp add: get_state_info_big_def scalar_state_info_def)
  next
    case True
    with run obtain m where m: "get_flip_mask_512 (number_spins h) = Some m"
      by (auto simp: get_state_info_big_def scalar_state_info_def split: option.splits)
    from run have "rep' = fst (fold (lane_step bits')
        (extended_orbit h m (big_group body') bits') (bits', 1, 0))"
      unfolding get_state_info_big_def m scalar_state_info_fold [OF True]
      by (auto split: prod.splits sum.splits)
    with fold_lane_step_le_start [of bits' "extended_orbit h m (big_group body') bits'" bits' 1 0]
    show ?thesis by simp
  qed
  assume none: "\<forall>p\<in>set (big_orbit h body' bits'). bits' \<le> fst p"
  show "rep' = bits'"
  proof (cases "has_symmetries h")
    case False
    with run show ?thesis
      by (simp add: get_state_info_big_def scalar_state_info_def)
  next
    case True
    with run obtain m where m: "get_flip_mask_512 (number_spins h) = Some m"
      by (auto simp: get_state_info_big_def scalar_state_info_def split: option.splits)
    from run have rep: "rep' = fst (fold (lane_step bits')
        (extended_orbit h m (big_group body') bits') (bits', 1, 0))"
      unfolding get_state_info_big_def m scalar_state_info_fold [OF True]
      by (auto split: prod.splits sum.splits)
    from none m have ge: "\<forall>p\<in>set (extended_orbit h m (big_group body') bits'). bits' \<le> fst p"
      by (simp add: big_orbit_def)
    show ?thesis
    proof (rule fold_lane_step_cases [of bits' "extended_orbit h m (big_group body') bits'" bits' 1 0])
      assume "fold (lane_step bits') (extended_orbit h m (big_group body') bits') (bits', 1, 0)
          = (bits', 1, 0 + stabilizer_sum (extended_orbit h m (big_group body') bits') bits')"
      with rep show ?thesis
        by simp
    next
      fix r' e' assume "r' < bits'" "(r', e') \<in> set (extended_orbit h m (big_group body') bits')"
      with ge show ?thesis
        by fastforce
    qed
  qed
qed

lemma upt_8: "[0..<8] = [0, 1, 2, 3, 4, 5, 6, 7]"
  by code_simp

lemma horizontal_add_lanes:
  "horizontal_add v = v 0 + v 1 + v 2 + v 3 + v 4 + v 5 + v 6 + v 7"
  by (simp add: horizontal_add_def upt_8)

lemmas state_info_defs =
  get_state_info_def get_flip_mask_64_def batch_acc_def batch_step_def other_step_def
  update_def update_first_few_def benes_forward_def select_def if_add_def reduce_def
  reduce_norm_only_def horizontal_add_lanes finish_norm_def snap_def norm_threshold_def
  small_group_size_def batch_size_def Let_def

lemma two_site_run:
  "get_state_info \<lparr>number_spins = 2, has_symmetries = True, spin_inversion = 0\<rparr>
     two_site_group 2 = Inr (1, Complex 1 0, Finite (sqrt (1 / 2)))"
  by (simp add: state_info_defs two_site_group_def swap_low_bits_def)

lemma big_identity_run:
  "get_state_info_big \<lparr>number_spins = 2, has_symmetries = True, spin_inversion = 0\<rparr>
     \<lparr>symmetries = [\<lparr>big_network = (\<lambda>x. x), eigenvalue = 1\<rparr>]\<rparr> 3 = Inr (3, 1, Finite 1)"
  by (simp add: get_state_info_big_def scalar_state_info_def get_flip_mask_512_def
      get_flip_mask_64_def scalar_step_def finish_norm_def snap_def norm_threshold_def
      big_group_size_def Let_def)

theorem representative_le_bits_witness:
  "get_state_info \<lparr>number_spins = 2, has_symmetries = True, spin_inversion = 0\<rparr>
     two_site_group 2 = Inr (1, Complex 1 0, Finite (sqrt (1 / 2)))
   \<and> (1 :: u64) \<le> 2
   \<and> get_state_info_big \<lparr>number_spins = 2, has_symmetries = True, spin_inversion = 0\<rparr>
     \<lparr>symmetries = [\<lparr>big_network = (\<lambda>x. x), eigenvalue = 1\<rparr>]\<rparr> 3 = Inr (3, 1, Finite 1)
   \<and> (3 :: bits512) \<le> 3"
  using representative_le_bits
    [of "\<lparr>number_spins = 2, has_symmetries = True, spin_inversion = 0\<rparr>" two_site_group 2
      1 "Complex 1 0" "Finite (sqrt (1 / 2))"
      "\<lparr>symmetries = [\<lparr>big_network = (\<lambda>x. x), eigenvalue = 1\<rparr>]\<rparr>" 3 3 1 "Finite 1"]
    two_site_run big_identity_run
  by simp

text \<open>
  C10 as stated, with the symmetries of the group only, fails when the header enables spin
  inversion: the one symmetry of \<open>identity_only\<close> maps the pattern \<open>2\<close> to itself, and the
  representative is the flipped pattern \<open>1\<close>.
\<close>

theorem flipped_pattern_counterexample:
  "map (\<lambda>g. fst g 2) (small_group identity_only) = [2]
   \<and> get_state_info \<lparr>number_spins = 2, has_symmetries = True, spin_inversion = 1\<rparr>
     identity_only 2 = Inr (1, Complex 1 0, Finite (sqrt (1 / 2)))"
  by (simp add: state_info_defs identity_only_def mask_eq_exp_minus_1 small_group_def
      batch_lane_def)

subsection \<open>The identity shortcut\<close>

lemma get_flip_mask_512_Some:
  assumes "n \<le> 512"
  shows "\<exists>m. get_flip_mask_512 n = Some m"
proof -
  have "n div 64 + (if n mod 64 \<noteq> 0 then 1 else 0) \<le> 8"
  proof (cases "n = 512")
    case True
    then show ?thesis by simp
  next
    case False
    with assms have "n < 8 * 64"
      by simp
    then have "n div 64 < 8"
      by (simp only: div_less_iff_less_mult [OF zero_less_numeral])
    then show ?thesis
      by simp
  qed
  moreover have "get_flip_mask_64 (n mod 64) \<noteq> None"
    by (simp add: get_flip_mask_64_def)
  ultimately show ?thesis
    by (auto simp: get_flip_mask_512_def Let_def split: option.splits)
qed

text \<open>
  C7, as the code has it. Without symmetries \<open>get_state_info\<close> returns the pattern, the
  character \<open>(1, 0)\<close> and the norm 1 on both paths. It returns the same for a group that
  holds the identity only when the header has no spin inversion.
\<close>

theorem identity_shortcut:
  "(\<not> has_symmetries h \<longrightarrow>
      get_state_info h body bits = Inr (bits, Complex 1 0, Finite 1)
      \<and> get_state_info_big h body' bits' = Inr (bits', Complex 1 0, Finite 1))
   \<and> (spin_inversion h = 0 \<and> number_spins h \<le> 64
        \<and> batched_symmetries body = [] \<and> other_symmetries body = Some s
        \<and> number_other_symmetries body = 1
        \<and> batch_network s 0 = (\<lambda>x. x) \<and> eigenvalues_real s 0 = 1 \<and> eigenvalues_imag s 0 = 0
      \<longrightarrow> get_state_info h body bits = Inr (bits, Complex 1 0, Finite 1))
   \<and> (spin_inversion h = 0 \<and> number_spins h \<le> 512
        \<and> symmetries body' = [s'] \<and> big_network s' = (\<lambda>x. x) \<and> eigenvalue s' = Complex 1 0
      \<longrightarrow> get_state_info_big h body' bits' = Inr (bits', Complex 1 0, Finite 1))"
proof (intro conjI impI)
  assume "\<not> has_symmetries h"
  then show "get_state_info h body bits = Inr (bits, Complex 1 0, Finite 1)"
    and "get_state_info_big h body' bits' = Inr (bits', Complex 1 0, Finite 1)"
    by (simp_all add: get_state_info_def get_state_info_big_def scalar_state_info_def)
next
  assume "spin_inversion h = 0 \<and> number_spins h \<le> 64
        \<and> batched_symmetries body = [] \<and> other_symmetries body = Some s
        \<and> number_other_symmetries body = 1
        \<and> batch_network s 0 = (\<lambda>x. x) \<and> eigenvalues_real s 0 = 1 \<and> eigenvalues_imag s 0 = 0"
  then show "get_state_info h body bits = Inr (bits, Complex 1 0, Finite 1)"
    by (simp add: state_info_defs)
next
  assume a: "spin_inversion h = 0 \<and> number_spins h \<le> 512
        \<and> symmetries body' = [s'] \<and> big_network s' = (\<lambda>x. x) \<and> eigenvalue s' = Complex 1 0"
  then obtain m where "get_flip_mask_512 (number_spins h) = Some m"
    using get_flip_mask_512_Some [of "number_spins h"] by blast
  with a show "get_state_info_big h body' bits' = Inr (bits', Complex 1 0, Finite 1)"
    by (simp add: get_state_info_big_def scalar_state_info_def
      scalar_step_def finish_norm_def snap_def norm_threshold_def
      big_group_size_def Let_def one_complex.code)
qed

theorem identity_shortcut_witness:
  "get_state_info \<lparr>number_spins = 2, has_symmetries = False, spin_inversion = 1\<rparr>
     two_site_group 2 = Inr (2, Complex 1 0, Finite 1)
   \<and> get_state_info \<lparr>number_spins = 2, has_symmetries = True, spin_inversion = 0\<rparr>
     identity_only 3 = Inr (3, Complex 1 0, Finite 1)
   \<and> get_state_info_big \<lparr>number_spins = 2, has_symmetries = True, spin_inversion = 0\<rparr>
     \<lparr>symmetries = [\<lparr>big_network = (\<lambda>x. x), eigenvalue = Complex 1 0\<rparr>]\<rparr> 3
       = Inr (3, Complex 1 0, Finite 1)"
  using identity_shortcut
      [where h = "\<lparr>number_spins = 2, has_symmetries = False, spin_inversion = 1\<rparr>"
         and body = two_site_group and bits = 2]
    identity_shortcut
      [where h = "\<lparr>number_spins = 2, has_symmetries = True, spin_inversion = 0\<rparr>"
         and body = identity_only and bits = 3
         and s = "\<lparr>batch_network = (\<lambda>i x. x), eigenvalues_real = (\<lambda>i. 1),
                   eigenvalues_imag = (\<lambda>i. 0)\<rparr>"
         and body' = "\<lparr>symmetries = [\<lparr>big_network = (\<lambda>x. x), eigenvalue = Complex 1 0\<rparr>]\<rparr>"
         and s' = "\<lparr>big_network = (\<lambda>x. x), eigenvalue = Complex 1 0\<rparr>" and bits' = 3]
  by (simp add: identity_only_def)

text \<open>
  C7 as stated fails when the header enables spin inversion: the extended orbit of \<open>3\<close> on
  two sites then holds the flipped pattern \<open>0\<close>, which is the representative, and the norm
  is \<open>sqrt (1 / 2)\<close>.
\<close>

theorem identity_with_spin_inversion_counterexample:
  "get_state_info \<lparr>number_spins = 2, has_symmetries = True, spin_inversion = 1\<rparr>
     identity_only 3 = Inr (0, Complex 1 0, Finite (sqrt (1 / 2)))"
  by (simp add: state_info_defs identity_only_def mask_eq_exp_minus_1)

section \<open>Properties of is\_representative\<close>

lemma horizontal_or_iff: "horizontal_or m \<longleftrightarrow> (\<exists>i<8. m i)"
  by (auto simp: horizontal_or_def list_ex_iff)

lemma stabilizer_sum_orbit_pair:
  "stabilizer_sum (orbit_pair h m bits g) bits =
     (if fst g bits = bits then Re (snd g) else 0)
       + (if spin_inversion h \<noteq> 0 \<and> fst g bits XOR m = bits
          then real_of_int (spin_inversion h) * Re (snd g) else 0)"
  by (simp add: stabilizer_sum_def orbit_pair_def)

lemma orbit_pair_smaller:
  "(\<exists>p\<in>set (orbit_pair h m bits g). fst p < bits) \<longleftrightarrow>
     fst g bits < bits \<or> (spin_inversion h \<noteq> 0 \<and> fst g bits XOR m < bits)"
  by (auto simp: orbit_pair_def)

lemma update_norm_only_clean:
  assumes "clean_acc acc bits"
  shows "update_norm_only acc x re =
     (if \<exists>i<8. x i < bits then None
      else Some (acc\<lparr>acc_n := (\<lambda>i. if x i = bits then acc_n acc i + re i else acc_n acc i)\<rparr>))"
  using assms
  by (simp add: update_norm_only_def clean_acc_def horizontal_or_iff if_add_def Let_def)

lemma update_first_few_norm_only_clean:
  assumes "clean_acc acc bits"
  shows "update_first_few_norm_only acc x re count =
     (if \<exists>i<8. x i < bits \<and> i < count then None
      else Some (acc\<lparr>acc_n := (\<lambda>i. if x i = bits \<and> i < count then acc_n acc i + re i
                                   else acc_n acc i)\<rparr>))"
  using assms
  by (auto simp: update_first_few_norm_only_def clean_acc_def horizontal_or_iff if_add_def Let_def)

lemma batch_step_norm_only_lanes:
  assumes "clean_acc acc bits"
  shows "batch_step_norm_only h (\<lambda>i. m) (\<lambda>i. real_of_int (spin_inversion h)) acc s =
     (if \<exists>i<8. \<exists>p\<in>set (orbit_pair h m bits (batch_lane s i)). fst p < bits then None
      else Some (acc\<lparr>acc_n := (\<lambda>i. acc_n acc i
                   + stabilizer_sum (orbit_pair h m bits (batch_lane s i)) bits)\<rparr>))"
proof -
  let ?x = "\<lambda>i. batch_network s i bits"
  have x: "benes_forward (batch_network s) (acc_original acc) = ?x"
    using assms by (simp add: benes_forward_def clean_acc_def)
  let ?acc1 = "acc\<lparr>acc_n := (\<lambda>i. if ?x i = bits then acc_n acc i + eigenvalues_real s i
                                else acc_n acc i)\<rparr>"
  have clean1: "clean_acc ?acc1 bits"
    using assms by (simp add: clean_acc_def)
  show ?thesis
    unfolding batch_step_norm_only_def Let_def x update_norm_only_clean [OF assms]
    by (auto simp: update_norm_only_clean [OF clean1] orbit_pair_smaller
        stabilizer_sum_orbit_pair batch_lane_def fun_eq_iff)
qed

lemma clean_acc_n_update: "clean_acc (acc\<lparr>acc_n := f\<rparr>) bits = clean_acc acc bits"
  by (simp add: clean_acc_def)

lemma other_step_norm_only_lanes:
  assumes "clean_acc acc bits"
  shows "other_step_norm_only h (\<lambda>i. m) (\<lambda>i. real_of_int (spin_inversion h)) count acc s =
     (if \<exists>i<8. i < count \<and> (\<exists>p\<in>set (orbit_pair h m bits (batch_lane s i)). fst p < bits)
      then None
      else Some (acc\<lparr>acc_n := (\<lambda>i. acc_n acc i
                   + (if i < count then stabilizer_sum (orbit_pair h m bits (batch_lane s i)) bits
                      else 0))\<rparr>))"
proof -
  let ?x = "\<lambda>i. batch_network s i bits"
  let ?k = "real_of_int (spin_inversion h)"
  have x: "benes_forward (batch_network s) (acc_original acc) = ?x"
    using assms by (simp add: benes_forward_def clean_acc_def)
  let ?n1 = "\<lambda>i. if ?x i = bits \<and> i < count then acc_n acc i + eigenvalues_real s i
                 else acc_n acc i"
  let ?acc1 = "acc\<lparr>acc_n := ?n1\<rparr>"
  let ?n2 = "\<lambda>i. if ?x i XOR m = bits \<and> i < count then ?n1 i + eigenvalues_real s i * ?k
                 else ?n1 i"
  have clean1: "clean_acc ?acc1 bits"
    using assms by (simp add: clean_acc_def)
  have smaller: "(\<exists>i<8. i < count \<and> (\<exists>p\<in>set (orbit_pair h m bits (batch_lane s i)). fst p < bits))
      \<longleftrightarrow> (\<exists>i<8. ?x i < bits \<and> i < count)
            \<or> (spin_inversion h \<noteq> 0 \<and> (\<exists>i<8. ?x i XOR m < bits \<and> i < count))"
    unfolding orbit_pair_smaller by (auto simp: batch_lane_def)
  have n1: "?n1 = (\<lambda>i. acc_n acc i
                   + (if i < count then stabilizer_sum (orbit_pair h m bits (batch_lane s i)) bits
                      else 0))" if "spin_inversion h = 0"
    using that by (simp add: fun_eq_iff stabilizer_sum_orbit_pair batch_lane_def)
  have n2: "?n2 = (\<lambda>i. acc_n acc i
                   + (if i < count then stabilizer_sum (orbit_pair h m bits (batch_lane s i)) bits
                      else 0))" if "spin_inversion h \<noteq> 0"
    using that by (simp add: fun_eq_iff stabilizer_sum_orbit_pair batch_lane_def mult.commute)
  show ?thesis
  proof (cases "\<exists>i<8. ?x i < bits \<and> i < count")
    case True
    then show ?thesis
      unfolding other_step_norm_only_def Let_def x update_first_few_norm_only_clean [OF assms]
        smaller
      by (simp only: if_True option.case simp_thms)
  next
    case first: False
    show ?thesis
    proof (cases "spin_inversion h = 0")
      case True
      then show ?thesis
        unfolding other_step_norm_only_def Let_def x update_first_few_norm_only_clean [OF assms]
          smaller
        using first by (auto simp: n1)
    next
      case False
      have second: "update_first_few_norm_only ?acc1 (\<lambda>i. ?x i XOR m)
                      (\<lambda>i. eigenvalues_real s i * ?k) count
                    = (if \<exists>i<8. ?x i XOR m < bits \<and> i < count then None
                       else Some (acc\<lparr>acc_n := ?n2\<rparr>))"
        by (auto simp: update_first_few_norm_only_clean [OF clean1] cong: if_cong)
      show ?thesis
        unfolding other_step_norm_only_def Let_def x update_first_few_norm_only_clean [OF assms]
          smaller
        using first False by (auto simp: second n2)
    qed
  qed
qed

lemma batches_norm_only_lanes:
  assumes "clean_acc acc bits"
  shows "batches_norm_only h (\<lambda>i. m) (\<lambda>i. real_of_int (spin_inversion h)) acc ss =
     (if \<exists>i<8. \<exists>p\<in>set (concat (map (\<lambda>s. orbit_pair h m bits (batch_lane s i)) ss)).
           fst p < bits
      then None
      else Some (acc\<lparr>acc_n := (\<lambda>i. acc_n acc i
                   + stabilizer_sum (concat (map (\<lambda>s. orbit_pair h m bits (batch_lane s i)) ss))
                       bits)\<rparr>))"
  using assms
proof (induction ss arbitrary: acc)
  case Nil
  then show ?case by (simp add: stabilizer_sum_Nil)
next
  case (Cons s ss)
  show ?case
  proof (cases "\<exists>i<8. \<exists>p\<in>set (orbit_pair h m bits (batch_lane s i)). fst p < bits")
    case True
    then have step: "batch_step_norm_only h (\<lambda>i. m) (\<lambda>i. real_of_int (spin_inversion h)) acc s
                       = None"
      by (simp only: batch_step_norm_only_lanes [OF Cons.prems] if_True)
    have ex: "\<exists>i<8. \<exists>p\<in>set (concat (map (\<lambda>s. orbit_pair h m bits (batch_lane s i)) (s # ss))).
                 fst p < bits"
      using True by (simp only: list.map concat.simps set_append) blast
    show ?thesis
      by (simp only: batches_norm_only.simps step option.case ex if_True)
  next
    case False
    let ?acc1 = "acc\<lparr>acc_n := (\<lambda>i. acc_n acc i
                   + stabilizer_sum (orbit_pair h m bits (batch_lane s i)) bits)\<rparr>"
    have clean1: "clean_acc ?acc1 bits"
      using Cons.prems by (simp add: clean_acc_n_update)
    have step: "batch_step_norm_only h (\<lambda>i. m) (\<lambda>i. real_of_int (spin_inversion h)) acc s
                  = Some ?acc1"
      using False by (simp add: batch_step_norm_only_lanes [OF Cons.prems])
    let ?rest = "\<lambda>i. concat (map (\<lambda>s. orbit_pair h m bits (batch_lane s i)) ss)"
    have split: "(\<exists>i<8. \<exists>p\<in>set (concat (map (\<lambda>s. orbit_pair h m bits (batch_lane s i)) (s # ss))).
                    fst p < bits)
                 \<longleftrightarrow> (\<exists>i<8. \<exists>p\<in>set (?rest i). fst p < bits)"
      using False by (simp only: list.map concat.simps set_append) blast
    have sums: "stabilizer_sum (concat (map (\<lambda>s. orbit_pair h m bits (batch_lane s i)) (s # ss))) bits
                 = stabilizer_sum (orbit_pair h m bits (batch_lane s i)) bits
                     + stabilizer_sum (?rest i) bits" for i
      by (simp only: list.map concat.simps stabilizer_sum_append)
    have "batches_norm_only h (\<lambda>i. m) (\<lambda>i. real_of_int (spin_inversion h)) acc (s # ss)
            = batches_norm_only h (\<lambda>i. m) (\<lambda>i. real_of_int (spin_inversion h)) ?acc1 ss"
      by (simp only: batches_norm_only.simps step option.case)
    also have "\<dots> = (if \<exists>i<8. \<exists>p\<in>set (?rest i). fst p < bits then None
                       else Some (?acc1\<lparr>acc_n := (\<lambda>i. acc_n ?acc1 i
                                     + stabilizer_sum (?rest i) bits)\<rparr>))"
      by (rule Cons.IH [OF clean1])
    also have "\<dots> = (if \<exists>i<8. \<exists>p\<in>set (?rest i). fst p < bits then None
                       else Some (acc\<lparr>acc_n := (\<lambda>i. acc_n acc i
                         + stabilizer_sum (concat (map (\<lambda>s. orbit_pair h m bits (batch_lane s i))
                                                      (s # ss))) bits)\<rparr>))"
      by (simp add: sums add.assoc del: list.map concat.simps)
    finally show ?thesis
      by (simp only: split)
  qed
qed

lemma clean_batch_acc: "clean_acc (batch_acc bits) bits"
  by (simp add: clean_acc_def batch_acc_def)

lemma is_representative_lanes:
  assumes "has_symmetries h" "get_flip_mask_64 (number_spins h) = Some m"
  shows "is_representative h body bits =
     (if \<exists>i<8. \<exists>p\<in>set (lane_orbit h m body bits i). fst p < bits then Inr False
      else if \<not> snap (lane_sum h m body bits) \<ge> 0 then Inl Fatal
      else Inr (snap (lane_sum h m body bits) > 0))"
proof -
  define B where
    "B = (\<lambda>i. concat (map (\<lambda>s. orbit_pair h m bits (batch_lane s i)) (batched_symmetries body)))"
  define fc where "fc = (\<lambda>i::nat. real_of_int (spin_inversion h))"
  define fm where "fm = (\<lambda>i::nat. m)"
  define acc1 where
    "acc1 = (batch_acc bits)\<lparr>acc_n := (\<lambda>i. acc_n (batch_acc bits) i + stabilizer_sum (B i) bits)\<rparr>"
  have batches: "batches_norm_only h fm fc (batch_acc bits) (batched_symmetries body)
     = (if \<exists>i<8. \<exists>p\<in>set (B i). fst p < bits then None else Some acc1)"
    unfolding B_def fc_def fm_def acc1_def
    by (rule batches_norm_only_lanes [OF clean_batch_acc])
  have clean1: "clean_acc acc1 bits"
    by (simp add: acc1_def clean_acc_n_update clean_batch_acc)
  have n1: "acc_n acc1 = (\<lambda>i. stabilizer_sum (B i) bits)"
    by (simp add: acc1_def batch_acc_def)
  have start: "is_representative h body bits =
     (case batches_norm_only h fm fc (batch_acc bits) (batched_symmetries body) of
        None \<Rightarrow> Inr False
      | Some acc \<Rightarrow>
          (case (case other_symmetries body of
                   None \<Rightarrow> Some acc
                 | Some symmetry \<Rightarrow>
                     other_step_norm_only h fm fc (number_other_symmetries body) acc symmetry) of
             None \<Rightarrow> Inr False
           | Some acc \<Rightarrow>
               if \<not> snap (reduce_norm_only acc) \<ge> 0 then Inl Fatal
               else Inr (snap (reduce_norm_only acc) > 0)))"
    unfolding fm_def fc_def is_representative_def Let_def
    using assms by (simp del: not_le)
  show ?thesis
  proof (cases "other_symmetries body")
    case None
    have orbit: "lane_orbit h m body bits i = B i" for i
      by (simp add: lane_orbit_def None B_def)
    have sum: "reduce_norm_only acc1 = lane_sum h m body bits"
      by (simp add: reduce_norm_only_def lane_sum_def n1 orbit)
    show ?thesis
      unfolding start batches
      by (auto simp: None orbit sum simp del: not_le)
  next
    case (Some s)
    define count where "count = number_other_symmetries body"
    define R where "R = (\<lambda>i. orbit_pair h m bits (batch_lane s i))"
    define acc2 where
      "acc2 = acc1\<lparr>acc_n := (\<lambda>i. acc_n acc1 i
                 + (if i < count then stabilizer_sum (R i) bits else 0))\<rparr>"
    have other: "other_step_norm_only h fm fc count acc1 s
       = (if \<exists>i<8. i < count \<and> (\<exists>p\<in>set (R i). fst p < bits) then None else Some acc2)"
      unfolding fc_def fm_def acc2_def R_def
      by (rule other_step_norm_only_lanes [OF clean1])
    have orbit: "lane_orbit h m body bits i = B i @ (if i < count then R i else [])" for i
      by (simp add: lane_orbit_def Some B_def R_def count_def)
    have "acc_n acc2 = (\<lambda>i. stabilizer_sum (lane_orbit h m body bits i) bits)"
      by (simp add: acc2_def n1 orbit stabilizer_sum_append stabilizer_sum_Nil fun_eq_iff)
    then have sum: "reduce_norm_only acc2 = lane_sum h m body bits"
      by (simp add: reduce_norm_only_def lane_sum_def)
    have smaller: "(\<exists>i<8. \<exists>p\<in>set (lane_orbit h m body bits i). fst p < bits)
       \<longleftrightarrow> (\<exists>i<8. \<exists>p\<in>set (B i). fst p < bits)
             \<or> (\<exists>i<8. i < count \<and> (\<exists>p\<in>set (R i). fst p < bits))"
      unfolding orbit by (simp only: set_append) (auto split: if_splits)
    show ?thesis
      unfolding start batches smaller
      by (auto simp: Some other sum count_def [symmetric] simp del: not_le)
  qed
qed

lemma final_acc_Inr:
  assumes "other_symmetries body \<noteq> None \<longrightarrow> number_other_symmetries body < 8"
  shows "\<exists>acc. final_acc h m body bits = Inr acc"
proof (cases "other_symmetries body")
  case None
  then show ?thesis by (simp add: final_acc_def)
next
  case (Some s)
  then have "number_other_symmetries body < 8"
    using assms by simp
  then show ?thesis
    by (simp add: final_acc_def Some other_step_Inr)
qed

lemma get_state_info_lanes:
  assumes "has_symmetries h" "get_flip_mask_64 (number_spins h) = Some m"
    and "other_symmetries body \<noteq> None \<longrightarrow> number_other_symmetries body < 8"
  obtains rep chr where
    "get_state_info h body bits =
       (case finish_norm (lane_sum h m body bits) (small_group_size h body) of
          Inl e \<Rightarrow> Inl e
        | Inr nrm \<Rightarrow> Inr (rep, chr, nrm))"
    "rep = bits \<longleftrightarrow> \<not> (\<exists>i<8. \<exists>p\<in>set (lane_orbit h m body bits i). fst p < bits)"
proof -
  obtain acc where acc: "final_acc h m body bits = Inr acc"
    using final_acc_Inr [OF assms(3)] by blast
  obtain k where k: "k < 8"
    "reduce acc = (fst (lane_state acc k), fst (snd (lane_state acc k)),
                   horizontal_add (acc_n acc))"
    "\<forall>i<8. fst (lane_state acc k) \<le> fst (lane_state acc i)"
    by (rule reduce_lane)
  have lane: "lane_state acc i = fold (lane_step bits) (lane_orbit h m body bits i) (bits, 1, 0)"
    for i
    by (rule lane_state_final_acc [OF acc])
  have "acc_n acc = (\<lambda>i. stabilizer_sum (lane_orbit h m body bits i) bits)"
  proof (rule ext)
    fix i
    have "acc_n acc i = snd (snd (lane_state acc i))"
      by (simp add: lane_state_triple)
    then show "acc_n acc i = stabilizer_sum (lane_orbit h m body bits i) bits"
      by (simp add: lane fold_lane_step_n)
  qed
  then have n: "horizontal_add (acc_n acc) = lane_sum h m body bits"
    by (simp add: lane_sum_def)
  let ?rep = "fst (lane_state acc k)"
  have gsi: "get_state_info h body bits =
       (case finish_norm (lane_sum h m body bits) (small_group_size h body) of
          Inl e \<Rightarrow> Inl e
        | Inr nrm \<Rightarrow> Inr (?rep, fst (snd (lane_state acc k)), nrm))"
    by (simp add: get_state_info_final_acc [OF assms(1,2)] acc k(2) n)
  have rep: "?rep = bits \<longleftrightarrow> \<not> (\<exists>i<8. \<exists>p\<in>set (lane_orbit h m body bits i). fst p < bits)"
  proof
    assume eq: "?rep = bits"
    show "\<not> (\<exists>i<8. \<exists>p\<in>set (lane_orbit h m body bits i). fst p < bits)"
    proof
      assume "\<exists>i<8. \<exists>p\<in>set (lane_orbit h m body bits i). fst p < bits"
      then obtain i p where i: "i < 8" "p \<in> set (lane_orbit h m body bits i)" "fst p < bits"
        by blast
      have "fst (lane_state acc i) \<le> fst p"
        unfolding lane by (rule fold_lane_step_le_element [OF i(2)])
      moreover have "?rep \<le> fst (lane_state acc i)"
        using k(3) i(1) by blast
      ultimately show False
        using i(3) eq by simp
    qed
  next
    assume none: "\<not> (\<exists>i<8. \<exists>p\<in>set (lane_orbit h m body bits i). fst p < bits)"
    show "?rep = bits"
    proof (rule fold_lane_step_cases [of bits "lane_orbit h m body bits k" bits 1 0])
      assume "fold (lane_step bits) (lane_orbit h m body bits k) (bits, 1, 0)
                = (bits, 1, 0 + stabilizer_sum (lane_orbit h m body bits k) bits)"
      then show ?thesis
        by (simp add: lane)
    next
      fix r' e'
      assume "r' < bits" "(r', e') \<in> set (lane_orbit h m body bits k)"
      then have "\<exists>i<8. \<exists>p\<in>set (lane_orbit h m body bits i). fst p < bits"
        using k(1) by force
      then show ?thesis
        using none by blast
    qed
  qed
  show ?thesis
    by (rule that [OF gsi rep])
qed

lemma finish_norm_positive:
  "(\<exists>nrm. finish_norm n g = Inr nrm \<and> positive_norm nrm) \<longleftrightarrow> 0 < snap n"
  by (auto simp: finish_norm_def Let_def zero_less_divide_iff)

text \<open>
  C4: for a body whose remainder batch, when present, has fewer than 8 valid lanes,
  \<open>is_representative\<close> returns true exactly when \<open>get_state_info\<close> on the same header, body
  and pattern returns the pattern itself as representative together with a norm strictly
  greater than 0, also at the threshold of the sum and for an empty group. The early \<open>return false\<close> of the norm-only loops does not change the answer.
\<close>

theorem is_representative_iff:
  assumes "other_symmetries body \<noteq> None \<longrightarrow> number_other_symmetries body < 8"
  shows "is_representative h body bits = Inr True \<longleftrightarrow>
           (\<exists>chr nrm. get_state_info h body bits = Inr (bits, chr, nrm) \<and> positive_norm nrm)"
proof (cases "has_symmetries h")
  case False
  then show ?thesis
    by (simp add: is_representative_def get_state_info_def)
next
  case True
  show ?thesis
  proof (cases "get_flip_mask_64 (number_spins h)")
    case None
    then show ?thesis
      using True by (simp add: is_representative_def get_state_info_def)
  next
    case (Some m)
    let ?S = "lane_sum h m body bits"
    let ?G = "small_group_size h body"
    let ?smaller = "\<exists>i<8. \<exists>p\<in>set (lane_orbit h m body bits i). fst p < bits"
    obtain rep chr where gsi:
      "get_state_info h body bits =
         (case finish_norm ?S ?G of Inl e \<Rightarrow> Inl e | Inr nrm \<Rightarrow> Inr (rep, chr, nrm))"
      and rep: "rep = bits \<longleftrightarrow> \<not> ?smaller"
      by (rule get_state_info_lanes [OF True Some assms])
    have left: "is_representative h body bits = Inr True \<longleftrightarrow> \<not> ?smaller \<and> 0 < snap ?S"
      unfolding is_representative_lanes [OF True Some] by auto
    have "(\<exists>chr nrm. get_state_info h body bits = Inr (bits, chr, nrm) \<and> positive_norm nrm)
            \<longleftrightarrow> rep = bits \<and> (\<exists>nrm. finish_norm ?S ?G = Inr nrm \<and> positive_norm nrm)"
      unfolding gsi by (auto split: sum.splits)
    also have "\<dots> \<longleftrightarrow> \<not> ?smaller \<and> 0 < snap ?S"
      unfolding finish_norm_positive rep ..
    finally show ?thesis
      unfolding left ..
  qed
qed

lemma two_site_group_lanes:
  "other_symmetries two_site_group \<noteq> None \<longrightarrow> number_other_symmetries two_site_group < 8"
  by (simp add: two_site_group_def)

lemma two_site_run_low:
  "get_state_info \<lparr>number_spins = 2, has_symmetries = True, spin_inversion = 0\<rparr>
     two_site_group 1 = Inr (1, Complex 1 0, Finite (sqrt (1 / 2)))"
  by (simp add: state_info_defs two_site_group_def swap_low_bits_def)

theorem is_representative_iff_witness:
  "is_representative \<lparr>number_spins = 2, has_symmetries = True, spin_inversion = 0\<rparr>
     two_site_group 1 = Inr True
   \<and> is_representative \<lparr>number_spins = 2, has_symmetries = True, spin_inversion = 0\<rparr>
     two_site_group 2 \<noteq> Inr True"
  using is_representative_iff [OF two_site_group_lanes,
      of "\<lparr>number_spins = 2, has_symmetries = True, spin_inversion = 0\<rparr>" 1]
    is_representative_iff [OF two_site_group_lanes,
      of "\<lparr>number_spins = 2, has_symmetries = True, spin_inversion = 0\<rparr>" 2]
    two_site_run_low two_site_run
  by simp

section \<open>The norm of get\_state\_info\<close>

























section \<open>The batched path against the scalar path\<close>





























end
